theory Spec2Isabelle
  imports Main
begin

section \<open>useTimeSlice: a time-sliced chunk processor\<close>

text \<open>
  The development embeds \<^verbatim>\<open>useTimeSlice\<close> (the hook that processes an array in
  chunks and yields to the host between chunks with \<^verbatim>\<open>setTimeout\<close>).

  \<^item> The options object is a record. \<^verbatim>\<open>count\<close> and \<^verbatim>\<open>interval\<close> are optional
    (defaults 10 and 16); they are JavaScript numbers and are taken here as natural
    numbers. The two optional callbacks are represented by whether they were supplied.
  \<^item> The closure variables \<^verbatim>\<open>isRunning\<close>, \<^verbatim>\<open>isPaused\<close>, \<^verbatim>\<open>timeoutId\<close>,
    \<^verbatim>\<open>currentIndex\<close> and \<^verbatim>\<open>result\<close> are fields of a state record that every
    operation takes and returns.
  \<^item> A JavaScript array may have holes, so \<^verbatim>\<open>result\<close> is a list of optional values
    (\<open>None\<close> is an empty slot).
  \<^item> The host is part of the state: the queue of pending timers (handle and due time),
    a clock, the next timer handle, and the trace of calls the scheduler made to the
    handler and to the two callbacks, in order.
  \<^item> The handler is a total function and the handler and the callbacks do not call back
    into the scheduler: a handler that throws, and a callback that calls \<^verbatim>\<open>pause\<close> or
    \<^verbatim>\<open>stop\<close> from inside a chunk, are outside the model.
\<close>

subsection \<open>Options\<close>

record ('t, 'r) TimeSliceOptions =
  data :: "'t list"
  count :: "nat option"
  interval :: "nat option"
  handler :: "'t \<Rightarrow> nat \<Rightarrow> 'r"
  onComplete :: bool
  onProgress :: bool

text \<open>The destructuring defaults \<^verbatim>\<open>count = 10, interval = 16\<close>.\<close>

definition count_of :: "('t, 'r) TimeSliceOptions \<Rightarrow> nat" where
  "count_of opts = (case count opts of None \<Rightarrow> 10 | Some c \<Rightarrow> c)"

definition interval_of :: "('t, 'r) TimeSliceOptions \<Rightarrow> nat" where
  "interval_of opts = (case interval opts of None \<Rightarrow> 16 | Some d \<Rightarrow> d)"

subsection \<open>State and host\<close>

datatype ('t, 'r) event =
    HandlerCall 't nat
  | ProgressCall nat nat
  | CompleteCall "'r option list"

record ('t, 'r) TimeSlice =
  isRunning :: bool
  isPaused :: bool
  timeoutId :: "nat option"
  currentIndex :: nat
  result :: "'r option list"
  timers :: "(nat \<times> nat) list"
  now :: nat
  nextTimerId :: nat
  trace :: "('t, 'r) event list"

definition init :: "('t, 'r) TimeSlice" where
  "init = \<lparr> isRunning = False, isPaused = False, timeoutId = None, currentIndex = 0,
            result = [], timers = [], now = 0, nextTimerId = 1, trace = [] \<rparr>"

text \<open>
  \<^verbatim>\<open>result[i] = v\<close>: inside the array the slot is overwritten; at or beyond its
  length the array is extended, leaving holes below \<open>i\<close>.
\<close>

definition array_set :: "'r option list \<Rightarrow> nat \<Rightarrow> 'r \<Rightarrow> 'r option list" where
  "array_set xs i v =
     (if i < length xs then xs[i := Some v]
      else xs @ replicate (i - length xs) None @ [Some v])"

text \<open>
  \<^verbatim>\<open>window.setTimeout(processChunk, delay)\<close> queues a timer due \<open>delay\<close> after the
  current time and returns a fresh handle; the only callback this hook ever queues is
  \<^verbatim>\<open>processChunk\<close>, so a timer is its handle and its due time.
  \<^verbatim>\<open>clearTimeout(id)\<close> removes the timer with that handle, if it is still queued.
\<close>

definition setTimeout :: "nat \<Rightarrow> ('t, 'r) TimeSlice \<Rightarrow> nat \<times> ('t, 'r) TimeSlice" where
  "setTimeout delay s =
     (nextTimerId s,
      s\<lparr> timers := timers s @ [(nextTimerId s, now s + delay)],
         nextTimerId := Suc (nextTimerId s) \<rparr>)"

definition clearTimeout :: "nat \<Rightarrow> ('t, 'r) TimeSlice \<Rightarrow> ('t, 'r) TimeSlice" where
  "clearTimeout tid s = s\<lparr> timers := filter (\<lambda>t. fst t \<noteq> tid) (timers s) \<rparr>"

subsection \<open>processChunk\<close>

text \<open>
  The \<^verbatim>\<open>for\<close> loop of \<^verbatim>\<open>processChunk\<close>: for \<open>i\<close> from the cursor up to \<open>end\<close>,
  \<^verbatim>\<open>result[i] = handler(data[i], i)\<close>. The caller bounds \<open>end\<close> by the length of
  \<open>data\<close>, so every read \<open>data ! i\<close> is inside the array.
\<close>

function chunk_loop ::
  "('t, 'r) TimeSliceOptions \<Rightarrow> nat \<Rightarrow> nat \<Rightarrow> ('t, 'r) TimeSlice \<Rightarrow> ('t, 'r) TimeSlice" where
  "chunk_loop opts i end s =
     (if i < end
      then chunk_loop opts (Suc i) end
             (s\<lparr> result := array_set (result s) i (handler opts (data opts ! i) i),
                 trace := trace s @ [HandlerCall (data opts ! i) i] \<rparr>)
      else s)"
  by pat_completeness auto
termination
  by (relation "measure (\<lambda>(opts, i, end, s). end - i)") auto

declare chunk_loop.simps [simp del]

definition call_onProgress ::
  "('t, 'r) TimeSliceOptions \<Rightarrow> nat \<Rightarrow> nat \<Rightarrow> ('t, 'r) TimeSlice \<Rightarrow> ('t, 'r) TimeSlice" where
  "call_onProgress opts completed tot s =
     (if onProgress opts then s\<lparr> trace := trace s @ [ProgressCall completed tot] \<rparr> else s)"

definition call_onComplete ::
  "('t, 'r) TimeSliceOptions \<Rightarrow> 'r option list \<Rightarrow> ('t, 'r) TimeSlice \<Rightarrow> ('t, 'r) TimeSlice" where
  "call_onComplete opts res s =
     (if onComplete opts then s\<lparr> trace := trace s @ [CompleteCall res] \<rparr> else s)"

definition processChunk ::
  "('t, 'r) TimeSliceOptions \<Rightarrow> ('t, 'r) TimeSlice \<Rightarrow> ('t, 'r) TimeSlice" where
  "processChunk opts s =
     (if \<not> isRunning s \<or> isPaused s then s
      else
        let totalLength = length (data opts);
            end = min (currentIndex s + count_of opts) totalLength;
            s1 = chunk_loop opts (currentIndex s) end s;
            s2 = s1\<lparr> currentIndex := end \<rparr>;
            s3 = call_onProgress opts (currentIndex s2) totalLength s2
        in if currentIndex s3 < totalLength
           then (let (tid, s4) = setTimeout (interval_of opts) s3
                 in s4\<lparr> timeoutId := Some tid \<rparr>)
           else (let s4 = s3\<lparr> isRunning := False \<rparr>
                 in call_onComplete opts (result s4) s4))"

subsection \<open>The four operations\<close>

definition start ::
  "('t, 'r) TimeSliceOptions \<Rightarrow> ('t, 'r) TimeSlice \<Rightarrow> ('t, 'r) TimeSlice" where
  "start opts s =
     (if isRunning s then s
      else processChunk opts
             (s\<lparr> isRunning := True, isPaused := False, currentIndex := 0, result := [] \<rparr>))"

definition pause :: "('t, 'r) TimeSlice \<Rightarrow> ('t, 'r) TimeSlice" where
  "pause s =
     (if \<not> isRunning s \<or> isPaused s then s
      else
        let s1 = s\<lparr> isPaused := True \<rparr>
        in case timeoutId s1 of
             None \<Rightarrow> s1
           | Some tid \<Rightarrow> (clearTimeout tid s1)\<lparr> timeoutId := None \<rparr>)"

definition resume ::
  "('t, 'r) TimeSliceOptions \<Rightarrow> ('t, 'r) TimeSlice \<Rightarrow> ('t, 'r) TimeSlice" where
  "resume opts s =
     (if \<not> isRunning s \<or> \<not> isPaused s then s
      else processChunk opts (s\<lparr> isPaused := False \<rparr>))"

definition stop :: "('t, 'r) TimeSlice \<Rightarrow> ('t, 'r) TimeSlice" where
  "stop s =
     (if \<not> isRunning s then s
      else
        let s1 = s\<lparr> isRunning := False, isPaused := False \<rparr>;
            s2 = (case timeoutId s1 of
                    None \<Rightarrow> s1
                  | Some tid \<Rightarrow> (clearTimeout tid s1)\<lparr> timeoutId := None \<rparr>)
        in s2\<lparr> currentIndex := 0, result := [] \<rparr>)"

subsection \<open>The host's turns\<close>

text \<open>
  Between calls of the four operations the host lets time pass and runs due timers, one
  per turn of its task queue: the timer that is due earliest (the first queued among
  equals) leaves the queue and \<^verbatim>\<open>processChunk\<close> runs. A timer never fires before it is
  due.
\<close>

definition due_timers :: "('t, 'r) TimeSlice \<Rightarrow> (nat \<times> nat) list" where
  "due_timers s = filter (\<lambda>t. snd t \<le> now s) (timers s)"

definition fire ::
  "('t, 'r) TimeSliceOptions \<Rightarrow> ('t, 'r) TimeSlice \<Rightarrow> ('t, 'r) TimeSlice" where
  "fire opts s =
     (case due_timers s of
        [] \<Rightarrow> s
      | t # ts \<Rightarrow>
          let tid = fst (arg_min_list snd (t # ts))
          in processChunk opts (clearTimeout tid s))"

datatype action = Start | Pause | Resume | Stop | Elapse nat | Fire

fun step ::
  "('t, 'r) TimeSliceOptions \<Rightarrow> action \<Rightarrow> ('t, 'r) TimeSlice \<Rightarrow> ('t, 'r) TimeSlice" where
  "step opts Start s = start opts s"
| "step opts Pause s = pause s"
| "step opts Resume s = resume opts s"
| "step opts Stop s = stop s"
| "step opts (Elapse d) s = s\<lparr> now := now s + d \<rparr>"
| "step opts Fire s = fire opts s"

definition exec ::
  "('t, 'r) TimeSliceOptions \<Rightarrow> action list \<Rightarrow> ('t, 'r) TimeSlice \<Rightarrow> ('t, 'r) TimeSlice" where
  "exec opts acts s = fold (step opts) acts s"

fun is_host :: "action \<Rightarrow> bool" where
  "is_host (Elapse d) = True"
| "is_host Fire = True"
| "is_host a = False"

subsection \<open>Specification vocabulary\<close>

text \<open>
  The values the properties below are stated with: the results of the first \<open>k\<close>
  elements, the handler calls on the indices from \<open>i\<close> up to \<open>e\<close>, the end of the chunk
  that starts at cursor \<open>c\<close>, the calls one chunk step makes, and the invariant that
  ties the scheduler's variables to the host's timer queue: a paused scheduler is active
  and has no handle; the cursor is within the data, and short of its end while the
  scheduler is active; the results are those of the elements below the cursor; and the
  queue holds a timer exactly while the scheduler is running and not paused, then a
  single one, whose handle is \<^verbatim>\<open>timeoutId\<close> and which is due within one interval.
\<close>

definition results_upto :: "('t, 'r) TimeSliceOptions \<Rightarrow> nat \<Rightarrow> 'r option list" where
  "results_upto opts k = map (\<lambda>j. Some (handler opts (data opts ! j) j)) [0..<k]"

definition handler_calls :: "('t, 'r) TimeSliceOptions \<Rightarrow> nat \<Rightarrow> nat \<Rightarrow> ('t, 'r) event list" where
  "handler_calls opts i e = map (\<lambda>j. HandlerCall (data opts ! j) j) [i..<e]"

definition chunk_end :: "('t, 'r) TimeSliceOptions \<Rightarrow> nat \<Rightarrow> nat" where
  "chunk_end opts c = min (c + count_of opts) (length (data opts))"

definition chunk_events :: "('t, 'r) TimeSliceOptions \<Rightarrow> nat \<Rightarrow> ('t, 'r) event list" where
  "chunk_events opts c =
     handler_calls opts c (chunk_end opts c)
     @ (if onProgress opts then [ProgressCall (chunk_end opts c) (length (data opts))] else [])
     @ (if chunk_end opts c < length (data opts) then []
        else if onComplete opts then [CompleteCall (results_upto opts (chunk_end opts c))]
        else [])"

definition sched_inv :: "('t, 'r) TimeSliceOptions \<Rightarrow> ('t, 'r) TimeSlice \<Rightarrow> bool" where
  "sched_inv opts s \<longleftrightarrow>
     (isPaused s \<longrightarrow> isRunning s \<and> timeoutId s = None) \<and>
     currentIndex s \<le> length (data opts) \<and>
     (isRunning s \<longrightarrow> currentIndex s < length (data opts)) \<and>
     result s = results_upto opts (currentIndex s) \<and>
     (case timers s of
        [] \<Rightarrow> \<not> (isRunning s \<and> \<not> isPaused s)
      | t # ts \<Rightarrow> ts = [] \<and> isRunning s \<and> \<not> isPaused s \<and> timeoutId s = Some (fst t) \<and>
                 snd t \<le> now s + interval_of opts)"

text \<open>The flag invariant: a paused scheduler is an active one.\<close>

definition flags_ok :: "('t, 'r) TimeSlice \<Rightarrow> bool" where
  "flags_ok s \<longleftrightarrow> (isPaused s \<longrightarrow> isRunning s)"

subsection \<open>Reading a trace\<close>

text \<open>
  The handler calls, the \<^verbatim>\<open>onComplete\<close> calls and the arguments of the
  \<^verbatim>\<open>onProgress\<close> calls of a trace, each in order; the events a state \<open>s\<close> has added
  to the trace of an earlier state \<open>s0\<close>; and the shape of the events of one run:
  the handler has been called on an initial segment of the indices in ascending order,
  once each; a run that is still active has had no completion and no progress beyond its
  cursor; progress cursors increase strictly (for a chunk size of at least one) and carry
  the length of the data; and a completion, if there is one, is the last event.
\<close>

fun is_handler_call :: "('t, 'r) event \<Rightarrow> bool" where
  "is_handler_call (HandlerCall x i) = True"
| "is_handler_call e = False"

fun is_complete_call :: "('t, 'r) event \<Rightarrow> bool" where
  "is_complete_call (CompleteCall r) = True"
| "is_complete_call e = False"

fun progress_of :: "('t, 'r) event \<Rightarrow> (nat \<times> nat) list" where
  "progress_of (ProgressCall c t) = [(c, t)]"
| "progress_of e = []"

definition handler_part :: "('t, 'r) event list \<Rightarrow> ('t, 'r) event list" where
  "handler_part tr = filter is_handler_call tr"

definition completions :: "('t, 'r) event list \<Rightarrow> ('t, 'r) event list" where
  "completions tr = filter is_complete_call tr"

definition progress_args :: "('t, 'r) event list \<Rightarrow> (nat \<times> nat) list" where
  "progress_args tr = concat (map progress_of tr)"

definition run_events :: "('t, 'r) TimeSlice \<Rightarrow> ('t, 'r) TimeSlice \<Rightarrow> ('t, 'r) event list" where
  "run_events s0 s = drop (length (trace s0)) (trace s)"

definition run_ok :: "('t, 'r) TimeSliceOptions \<Rightarrow> ('t, 'r) TimeSlice \<Rightarrow> ('t, 'r) event list \<Rightarrow> bool" where
  "run_ok opts s tr \<longleftrightarrow>
     handler_part tr = handler_calls opts 0 (length (handler_part tr)) \<and>
     (isRunning s \<longrightarrow>
        length (handler_part tr) = currentIndex s \<and> completions tr = [] \<and>
        (\<forall>p \<in> set (progress_args tr). fst p \<le> currentIndex s)) \<and>
     (0 < count_of opts \<longrightarrow> sorted_wrt (<) (map fst (progress_args tr))) \<and>
     (\<forall>p \<in> set (progress_args tr). snd p = length (data opts)) \<and>
     completions (butlast tr) = []"

text \<open>
  How one step changes a run. A quiet step adds no event, and if it leaves the scheduler
  running it has left the cursor alone; a still step moreover keeps the running flag, the
  cursor and the results; a chunk step adds the events of the chunk at the cursor and
  moves the cursor to the end of that chunk, and the scheduler is still running exactly
  if that end is short of the end of the data.
\<close>

definition quiet_step :: "('t, 'r) TimeSlice \<Rightarrow> ('t, 'r) TimeSlice \<Rightarrow> bool" where
  "quiet_step s s' \<longleftrightarrow>
     trace s' = trace s \<and> (isRunning s' \<longrightarrow> isRunning s \<and> currentIndex s' = currentIndex s)"

definition still_step :: "('t, 'r) TimeSlice \<Rightarrow> ('t, 'r) TimeSlice \<Rightarrow> bool" where
  "still_step s s' \<longleftrightarrow>
     trace s' = trace s \<and> isRunning s' = isRunning s \<and> currentIndex s' = currentIndex s \<and>
     result s' = result s"

definition chunk_step :: "('t, 'r) TimeSliceOptions \<Rightarrow> ('t, 'r) TimeSlice \<Rightarrow> ('t, 'r) TimeSlice \<Rightarrow> bool" where
  "chunk_step opts s s' \<longleftrightarrow>
     isRunning s \<and>
     trace s' = trace s @ chunk_events opts (currentIndex s) \<and>
     currentIndex s' = chunk_end opts (currentIndex s) \<and>
     result s' = results_upto opts (chunk_end opts (currentIndex s)) \<and>
     (isRunning s' \<longleftrightarrow> chunk_end opts (currentIndex s) < length (data opts))"

text \<open>
  A run that has ended without being stopped: the handler has been called on every index
  and \<^verbatim>\<open>onComplete\<close> has received the complete results.
\<close>

definition run_done :: "('t, 'r) TimeSliceOptions \<Rightarrow> ('t, 'r) TimeSlice \<Rightarrow> ('t, 'r) event list \<Rightarrow> bool" where
  "run_done opts s tr \<longleftrightarrow>
     (\<not> isRunning s \<longrightarrow>
        handler_part tr = handler_calls opts 0 (length (data opts)) \<and>
        completions tr =
          (if onComplete opts then [CompleteCall (results_upto opts (length (data opts)))] else []) \<and>
        currentIndex s = length (data opts) \<and>
        result s = results_upto opts (length (data opts)))"

text \<open>
  A schedule of the host that lets a run finish: \<open>m\<close> times, wait one interval and run
  the timer that is due.
\<close>

definition host_rounds :: "('t, 'r) TimeSliceOptions \<Rightarrow> nat \<Rightarrow> action list" where
  "host_rounds opts m = concat (replicate m [Elapse (interval_of opts), Fire])"

subsection \<open>Example configurations\<close>

text \<open>
  Five items in chunks of two, 100 ms apart, doubling each item; two items in chunks of
  one with the default interval; three items and no items with the default chunk size.
\<close>

definition ex_opts :: "(nat, nat) TimeSliceOptions" where
  "ex_opts = \<lparr> data = [1, 2, 3, 4, 5], count = Some 2, interval = Some 100,
               handler = (\<lambda>x i. x * 2), onComplete = True, onProgress = True \<rparr>"

definition ex_two :: "(nat, nat) TimeSliceOptions" where
  "ex_two = \<lparr> data = [1, 2], count = Some 1, interval = None,
              handler = (\<lambda>x i. x * 2), onComplete = True, onProgress = True \<rparr>"

definition ex_small :: "(nat, nat) TimeSliceOptions" where
  "ex_small = \<lparr> data = [1, 2, 3], count = None, interval = None,
                handler = (\<lambda>x i. x + i), onComplete = True, onProgress = True \<rparr>"

definition ex_empty :: "(nat, nat) TimeSliceOptions" where
  "ex_empty = \<lparr> data = [], count = None, interval = None,
                handler = (\<lambda>x i. x * 2), onComplete = True, onProgress = True \<rparr>"

section \<open>Basic facts\<close>

lemma array_set_length: "array_set xs (length xs) v = xs @ [Some v]"
  by (simp add: array_set_def)

lemma chunk_loop_eq:
  "length (result s) = i \<Longrightarrow>
   chunk_loop opts i e s =
     s\<lparr> result := result s @ map (\<lambda>j. Some (handler opts (data opts ! j) j)) [i..<e],
        trace := trace s @ handler_calls opts i e \<rparr>"
proof (induction opts i e s rule: chunk_loop.induct)
  case (1 opts i e s)
  show ?case
  proof (cases "i < e")
    case True
    have "chunk_loop opts i e s = chunk_loop opts (Suc i) e
             (s\<lparr> result := array_set (result s) i (handler opts (data opts ! i) i),
                 trace := trace s @ [HandlerCall (data opts ! i) i] \<rparr>)"
      using True by (subst chunk_loop.simps) simp
    also have "\<dots> = s\<lparr> result := result s @ map (\<lambda>j. Some (handler opts (data opts ! j) j)) [i..<e],
        trace := trace s @ handler_calls opts i e \<rparr>"
      using True "1.prems" 
      by (subst "1.IH") (simp_all add: array_set_def upt_conv_Cons handler_calls_def)
    finally show ?thesis .
  next
    case False
    then show ?thesis
      by (subst chunk_loop.simps) (simp add: handler_calls_def)
  qed
qed

lemma results_upto_app:
  assumes "c \<le> e"
  shows "results_upto opts c @ map (\<lambda>j. Some (handler opts (data opts ! j) j)) [c..<e]
         = results_upto opts e"
proof -
  from assms obtain d where e: "e = c + d"
    using le_Suc_ex by blast
  have "[0..<c + d] = [0..<c] @ [c..<c + d]"
    by (rule upt_add_eq_append) simp
  then show ?thesis
    by (simp add: results_upto_def e)
qed

lemma length_results_upto [simp]: "length (results_upto opts k) = k"
  by (simp add: results_upto_def)

text \<open>One chunk step from a state that is running and not paused.\<close>

lemma processChunk_running:
  assumes "isRunning s" "\<not> isPaused s" "result s = results_upto opts (currentIndex s)"
    "currentIndex s \<le> length (data opts)"
  shows "processChunk opts s =
     (if chunk_end opts (currentIndex s) < length (data opts)
      then s\<lparr> result := results_upto opts (chunk_end opts (currentIndex s)),
              trace := trace s @ chunk_events opts (currentIndex s),
              currentIndex := chunk_end opts (currentIndex s),
              timers := timers s @ [(nextTimerId s, now s + interval_of opts)],
              nextTimerId := Suc (nextTimerId s),
              timeoutId := Some (nextTimerId s) \<rparr>
      else s\<lparr> result := results_upto opts (chunk_end opts (currentIndex s)),
              trace := trace s @ chunk_events opts (currentIndex s),
              currentIndex := chunk_end opts (currentIndex s),
              isRunning := False \<rparr>)"
proof -
  define c where "c = currentIndex s"
  define e where "e = chunk_end opts c"
  have len: "length (result s) = c"
    using assms(3) by (simp add: c_def)
  have e_min: "min (c + count_of opts) (length (data opts)) = e"
    by (simp add: e_def chunk_end_def)
  have res: "result s @ map (\<lambda>j. Some (handler opts (data opts ! j) j)) [c..<e]
             = results_upto opts e"
    unfolding assms(3) c_def [symmetric] e_def
    by (rule results_upto_app) (use assms(4) in \<open>simp add: chunk_end_def c_def\<close>)
  have "processChunk opts s =
     (if e < length (data opts)
      then s\<lparr> result := results_upto opts e,
              trace := trace s @ chunk_events opts c,
              currentIndex := e,
              timers := timers s @ [(nextTimerId s, now s + interval_of opts)],
              nextTimerId := Suc (nextTimerId s),
              timeoutId := Some (nextTimerId s) \<rparr>
      else s\<lparr> result := results_upto opts e,
              trace := trace s @ chunk_events opts c,
              currentIndex := e,
              isRunning := False \<rparr>)"
    unfolding processChunk_def Let_def c_def [symmetric] e_min chunk_events_def e_def [symmetric]
    using assms(1,2) res
    by (simp add: chunk_loop_eq [OF len] call_onProgress_def call_onComplete_def setTimeout_def)
  then show ?thesis
    by (simp add: c_def e_def)
qed

lemma sched_inv_init: "sched_inv opts init"
  by (simp add: sched_inv_def init_def results_upto_def)

lemma chunk_end_le: "chunk_end opts c \<le> length (data opts)"
  by (simp add: chunk_end_def)

lemma sched_inv_processChunk:
  assumes "isRunning s" "\<not> isPaused s" "result s = results_upto opts (currentIndex s)"
    "currentIndex s \<le> length (data opts)" "timers s = []"
  shows "sched_inv opts (processChunk opts s)"
  using assms chunk_end_le [of opts "currentIndex s"]
  by (simp add: processChunk_running sched_inv_def)

lemma idle_no_timers: "sched_inv opts s \<Longrightarrow> \<not> isRunning s \<or> isPaused s \<Longrightarrow> timers s = []"
  by (cases "timers s") (auto simp: sched_inv_def)

lemma sched_inv_start: 
  assumes "sched_inv opts s"
  shows "sched_inv opts (start opts s)"
proof (cases "isRunning s")
  case True
  then show ?thesis using assms by (simp add: start_def)
next
  case False
  have "timers s = []"
    using assms False by (simp add: idle_no_timers)
  then have "sched_inv opts (processChunk opts
      (s\<lparr> isRunning := True, isPaused := False, currentIndex := 0, result := [] \<rparr>))"
    by (intro sched_inv_processChunk) (simp_all add: results_upto_def)
  then show ?thesis using False by (simp add: start_def)
qed

lemma sched_inv_pause:
  assumes "sched_inv opts s"
  shows "sched_inv opts (pause s)"
proof (cases "\<not> isRunning s \<or> isPaused s")
  case True
  then show ?thesis using assms by (simp add: pause_def)
next
  case False
  then show ?thesis
    using assms
    by (cases "timers s"; cases "timeoutId s")
       (simp_all add: pause_def sched_inv_def clearTimeout_def)
qed

lemma sched_inv_resume:
  assumes "sched_inv opts s"
  shows "sched_inv opts (resume opts s)"
proof (cases "isRunning s \<and> isPaused s")
  case False
  then show ?thesis using assms by (auto simp: resume_def)
next
  case True
  have "timers s = []"
    using assms True by (simp add: idle_no_timers)
  then have "sched_inv opts (processChunk opts (s\<lparr> isPaused := False \<rparr>))"
    using assms True by (intro sched_inv_processChunk) (simp_all add: sched_inv_def)
  then show ?thesis using True by (simp add: resume_def)
qed

lemma sched_inv_stop:
  assumes "sched_inv opts s"
  shows "sched_inv opts (stop s)"
proof (cases "isRunning s")
  case False
  then show ?thesis using assms by (simp add: stop_def)
next
  case True
  then show ?thesis
    using assms
    by (cases "timers s"; cases "timeoutId s")
       (simp_all add: stop_def sched_inv_def clearTimeout_def results_upto_def)
qed

lemma due_timers_running:
  "sched_inv opts s \<Longrightarrow> due_timers s \<noteq> [] \<Longrightarrow> isRunning s \<and> \<not> isPaused s"
  by (cases "timers s") (auto simp: due_timers_def sched_inv_def)

lemma fire_eq:
  assumes "sched_inv opts s"
  shows "fire opts s = (if due_timers s = [] then s else processChunk opts (s\<lparr> timers := [] \<rparr>))"
proof (cases "timers s")
  case Nil
  then show ?thesis by (simp add: fire_def due_timers_def)
next
  case (Cons t ts)
  then have ts: "ts = []" using assms by (simp add: sched_inv_def)
  show ?thesis
    using Cons ts by (simp add: fire_def due_timers_def clearTimeout_def)
qed

lemma sched_inv_fire:
  assumes "sched_inv opts s"
  shows "sched_inv opts (fire opts s)"
proof (cases "due_timers s = []")
  case True
  then show ?thesis using assms by (simp add: fire_eq)
next
  case False
  then have run: "isRunning s \<and> \<not> isPaused s"
    using assms due_timers_running by blast
  have "sched_inv opts (processChunk opts (s\<lparr> timers := [] \<rparr>))"
    using assms run by (intro sched_inv_processChunk) (simp_all add: sched_inv_def)
  then show ?thesis using False assms by (simp add: fire_eq)
qed

lemma sched_inv_elapse: "sched_inv opts s \<Longrightarrow> sched_inv opts (s\<lparr> now := now s + d \<rparr>)"
  by (cases "timers s") (auto simp: sched_inv_def)

lemma sched_inv_step: "sched_inv opts s \<Longrightarrow> sched_inv opts (step opts a s)"
  by (cases a) (simp_all add: sched_inv_start sched_inv_pause sched_inv_resume sched_inv_stop
      sched_inv_fire sched_inv_elapse)

lemma sched_inv_exec: "sched_inv opts s \<Longrightarrow> sched_inv opts (exec opts acts s)"
  unfolding exec_def
  by (induction acts arbitrary: s) (simp_all add: sched_inv_step)

section \<open>Chunk steps and runs\<close>

lemma handler_part_append [simp]: "handler_part (xs @ ys) = handler_part xs @ handler_part ys"
  by (simp add: handler_part_def)

lemma completions_append [simp]: "completions (xs @ ys) = completions xs @ completions ys"
  by (simp add: completions_def)

lemma progress_args_append [simp]: "progress_args (xs @ ys) = progress_args xs @ progress_args ys"
  by (simp add: progress_args_def)

lemma handler_part_calls [simp]: "handler_part (handler_calls opts i e) = handler_calls opts i e"
  by (simp add: handler_part_def handler_calls_def filter_map comp_def)

lemma completions_calls [simp]: "completions (handler_calls opts i e) = []"
  by (simp add: completions_def handler_calls_def filter_map comp_def)

lemma progress_args_calls [simp]: "progress_args (handler_calls opts i e) = []"
  by (simp add: progress_args_def handler_calls_def comp_def)

lemma length_handler_calls [simp]: "length (handler_calls opts i e) = e - i"
  by (simp add: handler_calls_def)

lemma handler_calls_app:
  assumes "c \<le> e"
  shows "handler_calls opts 0 c @ handler_calls opts c e = handler_calls opts 0 e"
proof -
  from assms obtain d where e: "e = c + d"
    using le_Suc_ex by blast
  have "[0..<c + d] = [0..<c] @ [c..<c + d]"
    by (rule upt_add_eq_append) simp
  then show ?thesis
    by (simp add: handler_calls_def e)
qed

lemma handler_part_Nil [simp]: "handler_part [] = []"
  by (simp add: handler_part_def)

lemma handler_part_Cons [simp]:
  "handler_part (x # xs) = (if is_handler_call x then x # handler_part xs else handler_part xs)"
  by (simp add: handler_part_def)

lemma completions_Nil [simp]: "completions [] = []"
  by (simp add: completions_def)

lemma completions_Cons [simp]:
  "completions (x # xs) = (if is_complete_call x then x # completions xs else completions xs)"
  by (simp add: completions_def)

lemma progress_args_Nil [simp]: "progress_args [] = []"
  by (simp add: progress_args_def)

lemma progress_args_Cons [simp]: "progress_args (x # xs) = progress_of x @ progress_args xs"
  by (simp add: progress_args_def)

lemma completions_butlast_calls [simp]: "completions (butlast (handler_calls opts i e)) = []"
  by (simp add: completions_def handler_calls_def filter_map comp_def flip: map_butlast)

lemma handler_part_chunk:
  "handler_part (chunk_events opts c) = handler_calls opts c (chunk_end opts c)"
  by (simp add: chunk_events_def)

lemma progress_args_chunk:
  "progress_args (chunk_events opts c) =
     (if onProgress opts then [(chunk_end opts c, length (data opts))] else [])"
  by (simp add: chunk_events_def)

lemma completions_chunk:
  "completions (chunk_events opts c) =
     (if chunk_end opts c < length (data opts) then []
      else if onComplete opts then [CompleteCall (results_upto opts (chunk_end opts c))]
      else [])"
  by (simp add: chunk_events_def)

lemma completions_butlast_chunk: "completions (butlast (chunk_events opts c)) = []"
  by (simp add: chunk_events_def butlast_append)

lemma chunk_step_processChunk:
  assumes "isRunning s" "\<not> isPaused s" "result s = results_upto opts (currentIndex s)"
    "currentIndex s \<le> length (data opts)"
  shows "chunk_step opts s (processChunk opts s)"
  using assms by (simp add: processChunk_running chunk_step_def)

lemma chunk_step_cong:
  "chunk_step opts s1 s' \<Longrightarrow> isRunning s = isRunning s1 \<Longrightarrow> trace s = trace s1 \<Longrightarrow>
   currentIndex s = currentIndex s1 \<Longrightarrow> chunk_step opts s s'"
  by (simp add: chunk_step_def)

lemma still_quiet: "still_step s s' \<Longrightarrow> quiet_step s s'"
  by (simp add: still_step_def quiet_step_def)

lemma pause_still: "still_step s (pause s)"
  by (simp add: pause_def still_step_def clearTimeout_def Let_def split: option.splits)

lemma stop_quiet: "quiet_step s (stop s)"
  by (simp add: stop_def quiet_step_def clearTimeout_def Let_def split: option.splits)

lemma resume_step:
  assumes "sched_inv opts s"
  shows "still_step s (resume opts s) \<or> chunk_step opts s (resume opts s)"
proof (cases "isRunning s \<and> isPaused s")
  case False
  then show ?thesis by (auto simp: resume_def still_step_def)
next
  case True
  have "chunk_step opts (s\<lparr> isPaused := False \<rparr>) (processChunk opts (s\<lparr> isPaused := False \<rparr>))"
    using assms True by (intro chunk_step_processChunk) (simp_all add: sched_inv_def)
  then have "chunk_step opts s (processChunk opts (s\<lparr> isPaused := False \<rparr>))"
    by (rule chunk_step_cong) simp_all
  then show ?thesis using True by (simp add: resume_def)
qed

lemma fire_step:
  assumes "sched_inv opts s"
  shows "still_step s (fire opts s) \<or> chunk_step opts s (fire opts s)"
proof (cases "due_timers s = []")
  case True
  then show ?thesis using assms by (simp add: fire_eq still_step_def)
next
  case False
  then have run: "isRunning s \<and> \<not> isPaused s"
    using assms due_timers_running by blast
  have "chunk_step opts (s\<lparr> timers := [] \<rparr>) (processChunk opts (s\<lparr> timers := [] \<rparr>))"
    using assms run by (intro chunk_step_processChunk) (simp_all add: sched_inv_def)
  then have "chunk_step opts s (processChunk opts (s\<lparr> timers := [] \<rparr>))"
    by (rule chunk_step_cong) simp_all
  then show ?thesis using False assms by (simp add: fire_eq)
qed

lemma step_cases_nostop:
  assumes "sched_inv opts s" "a \<noteq> Start" "a \<noteq> Stop"
  shows "still_step s (step opts a s) \<or> chunk_step opts s (step opts a s)"
  using assms
  by (cases a) (simp_all add: pause_still resume_step fire_step, simp add: still_step_def)

lemma step_cases:
  assumes "sched_inv opts s" "a \<noteq> Start"
  shows "quiet_step s (step opts a s) \<or> chunk_step opts s (step opts a s)"
proof (cases "a = Stop")
  case True
  then show ?thesis by (simp add: stop_quiet)
next
  case False
  then show ?thesis
    using step_cases_nostop [OF assms] still_quiet by blast
qed

lemma start_step:
  assumes "\<not> isRunning s"
  shows "trace (start opts s) = trace s @ chunk_events opts 0"
    and "currentIndex (start opts s) = chunk_end opts 0"
    and "result (start opts s) = results_upto opts (chunk_end opts 0)"
    and "isRunning (start opts s) \<longleftrightarrow> chunk_end opts 0 < length (data opts)"
proof -
  let ?s = "s\<lparr> isRunning := True, isPaused := False, currentIndex := 0, result := [] \<rparr>"
  have "chunk_step opts ?s (processChunk opts ?s)"
    by (intro chunk_step_processChunk) (simp_all add: results_upto_def)
  then show "trace (start opts s) = trace s @ chunk_events opts 0"
    and "currentIndex (start opts s) = chunk_end opts 0"
    and "result (start opts s) = results_upto opts (chunk_end opts 0)"
    and "isRunning (start opts s) \<longleftrightarrow> chunk_end opts 0 < length (data opts)"
    using assms by (simp_all add: start_def chunk_step_def)
qed

lemma chunk_end_gt: "0 < count_of opts \<Longrightarrow> c < length (data opts) \<Longrightarrow> c < chunk_end opts c"
  by (simp add: chunk_end_def)

lemma chunk_end_ge: "c \<le> length (data opts) \<Longrightarrow> c \<le> chunk_end opts c"
  by (simp add: chunk_end_def)

lemma run_ok_quiet: "run_ok opts s tr \<Longrightarrow> quiet_step s s' \<Longrightarrow> run_ok opts s' tr"
  by (simp add: run_ok_def quiet_step_def)

lemma run_ok_chunk:
  assumes ok: "run_ok opts s tr" and ch: "chunk_step opts s s'" and inv: "sched_inv opts s"
  shows "run_ok opts s' (tr @ chunk_events opts (currentIndex s))"
proof -
  let ?c = "currentIndex s"
  let ?e = "chunk_end opts ?c"
  let ?ev = "chunk_events opts ?c"
  have run: "isRunning s" using ch by (simp add: chunk_step_def)
  have c_lt: "?c < length (data opts)" using inv run by (simp add: sched_inv_def)
  have c_le: "?c \<le> ?e" using c_lt by (simp add: chunk_end_ge)
  have len: "length (handler_part tr) = ?c"
    and nc: "completions tr = []" and pl: "\<forall>p \<in> set (progress_args tr). fst p \<le> ?c"
    using ok run by (simp_all add: run_ok_def)
  have "handler_part tr = handler_calls opts 0 (length (handler_part tr))"
    using ok by (simp add: run_ok_def)
  then have hp: "handler_part tr = handler_calls opts 0 ?c"
    unfolding len .
  have h': "handler_part (tr @ ?ev) = handler_calls opts 0 ?e"
    by (simp add: handler_part_chunk hp handler_calls_app [OF c_le])
  have 1: "handler_part (tr @ ?ev) = handler_calls opts 0 (length (handler_part (tr @ ?ev)))"
    unfolding h' by simp
  have 2: "isRunning s' \<longrightarrow>
        length (handler_part (tr @ ?ev)) = currentIndex s' \<and> completions (tr @ ?ev) = [] \<and>
        (\<forall>p \<in> set (progress_args (tr @ ?ev)). fst p \<le> currentIndex s')"
    unfolding h' using ch nc pl c_le
    by (auto simp: chunk_step_def completions_chunk progress_args_chunk)
  have 3: "0 < count_of opts \<longrightarrow> sorted_wrt (<) (map fst (progress_args (tr @ ?ev)))"
  proof
    assume pos: "0 < count_of opts"
    then have "?c < ?e" using c_lt by (simp add: chunk_end_gt)
    moreover have "sorted_wrt (<) (map fst (progress_args tr))"
      using ok pos by (simp add: run_ok_def)
    ultimately show "sorted_wrt (<) (map fst (progress_args (tr @ ?ev)))"
      using pl by (auto simp: progress_args_chunk sorted_wrt_append)
  qed
  have 4: "\<forall>p \<in> set (progress_args (tr @ ?ev)). snd p = length (data opts)"
    using ok by (auto simp: run_ok_def progress_args_chunk)
  have 5: "completions (butlast (tr @ ?ev)) = []"
    using ok nc by (simp add: butlast_append completions_butlast_chunk run_ok_def)
  show ?thesis
    unfolding run_ok_def using 1 2 3 4 5 by blast
qed

text \<open>The events of a run, from an accepted start through any operations but start.\<close>

lemma run_ok_start:
  assumes "\<not> isRunning s0"
  shows "run_ok opts (start opts s0) (chunk_events opts 0)"
proof -
  have 1: "handler_part (chunk_events opts 0) = handler_calls opts 0 (chunk_end opts 0)"
    by (simp add: handler_part_chunk)
  show ?thesis
    unfolding run_ok_def 1
    using start_step [OF assms, of opts]
    by (simp add: completions_chunk progress_args_chunk completions_butlast_chunk)
qed

lemma run_ok_exec:
  assumes "sched_inv opts s" "trace s = t0 @ tr" "run_ok opts s tr" "Start \<notin> set acts"
  shows "\<exists>tr'. trace (exec opts acts s) = t0 @ tr' \<and> run_ok opts (exec opts acts s) tr'"
  using assms
proof (induction acts arbitrary: s tr)
  case Nil
  then show ?case by (simp add: exec_def)
next
  case (Cons a acts)
  let ?s = "step opts a s"
  have a: "a \<noteq> Start" and acts: "Start \<notin> set acts"
    using Cons.prems(4) by auto
  have inv': "sched_inv opts ?s"
    using Cons.prems(1) by (rule sched_inv_step)
  from step_cases [OF Cons.prems(1) a]
  have "\<exists>tr1. trace ?s = t0 @ tr1 \<and> run_ok opts ?s tr1"
  proof
    assume q: "quiet_step s ?s"
    then have "trace ?s = t0 @ tr" using Cons.prems(2) by (simp add: quiet_step_def)
    moreover have "run_ok opts ?s tr" using Cons.prems(3) q by (rule run_ok_quiet)
    ultimately show ?thesis by blast
  next
    assume c: "chunk_step opts s ?s"
    then have "trace ?s = t0 @ (tr @ chunk_events opts (currentIndex s))"
      using Cons.prems(2) by (simp add: chunk_step_def)
    moreover have "run_ok opts ?s (tr @ chunk_events opts (currentIndex s))"
      using Cons.prems(3) c Cons.prems(1) by (rule run_ok_chunk)
    ultimately show ?thesis by blast
  qed
  then obtain tr1 where t1: "trace ?s = t0 @ tr1" and ok1: "run_ok opts ?s tr1"
    by blast
  from Cons.IH [OF inv' t1 ok1 acts]
  show ?case by (simp add: exec_def)
qed

lemma run_events_ok:
  assumes "sched_inv opts s0" "\<not> isRunning s0" "Start \<notin> set acts"
  shows "run_ok opts (exec opts acts (start opts s0)) (run_events s0 (exec opts acts (start opts s0)))"
proof -
  have "\<exists>tr'. trace (exec opts acts (start opts s0)) = trace s0 @ tr' \<and>
          run_ok opts (exec opts acts (start opts s0)) tr'"
    using assms
    by (intro run_ok_exec [where tr = "chunk_events opts 0"])
       (simp_all add: sched_inv_start start_step run_ok_start)
  then show ?thesis
    by (auto simp: run_events_def)
qed

section \<open>Preservation of the flag invariant\<close>

lemma chunk_loop_frame:
  "isRunning (chunk_loop opts i e s) = isRunning s \<and>
   isPaused (chunk_loop opts i e s) = isPaused s \<and>
   timeoutId (chunk_loop opts i e s) = timeoutId s \<and>
   currentIndex (chunk_loop opts i e s) = currentIndex s \<and>
   timers (chunk_loop opts i e s) = timers s \<and>
   now (chunk_loop opts i e s) = now s \<and>
   nextTimerId (chunk_loop opts i e s) = nextTimerId s"
proof (induction opts i e s rule: chunk_loop.induct)
  case (1 opts i e s)
  show ?case
    using "1.IH" by (subst (1 2 3 4 5 6 7) chunk_loop.simps) simp
qed

lemma flags_ok_processChunk: "flags_ok s \<Longrightarrow> flags_ok (processChunk opts s)"
  by (simp add: flags_ok_def processChunk_def Let_def chunk_loop_frame call_onProgress_def
      call_onComplete_def setTimeout_def)

lemma flags_ok_start: "flags_ok s \<Longrightarrow> flags_ok (start opts s)"
proof -
  have "flags_ok (processChunk opts
      (s\<lparr> isRunning := True, isPaused := False, currentIndex := 0, result := [] \<rparr>))"
    by (rule flags_ok_processChunk) (simp add: flags_ok_def)
  then show "flags_ok s \<Longrightarrow> flags_ok (start opts s)"
    by (simp add: start_def)
qed

lemma flags_ok_pause: "flags_ok s \<Longrightarrow> flags_ok (pause s)"
  by (simp add: pause_def flags_ok_def clearTimeout_def Let_def split: option.splits)

lemma flags_ok_resume: "flags_ok s \<Longrightarrow> flags_ok (resume opts s)"
proof -
  have "flags_ok (processChunk opts (s\<lparr> isPaused := False \<rparr>))"
    by (rule flags_ok_processChunk) (simp add: flags_ok_def)
  then show "flags_ok s \<Longrightarrow> flags_ok (resume opts s)"
    by (simp add: resume_def)
qed

lemma flags_ok_stop: "flags_ok s \<Longrightarrow> flags_ok (stop s)"
  by (auto simp: stop_def flags_ok_def clearTimeout_def Let_def split: option.splits)

lemma flags_ok_fire:
  assumes "flags_ok s"
  shows "flags_ok (fire opts s)"
proof (cases "due_timers s")
  case Nil
  then show ?thesis using assms by (simp add: fire_def)
next
  case (Cons t ts)
  have "flags_ok (processChunk opts (clearTimeout (fst (arg_min_list snd (t # ts))) s))"
    using assms by (intro flags_ok_processChunk) (simp add: flags_ok_def clearTimeout_def)
  then show ?thesis using Cons by (simp add: fire_def)
qed

lemma flags_ok_step: "flags_ok s \<Longrightarrow> flags_ok (step opts a s)"
  by (cases a) (simp_all add: flags_ok_start flags_ok_pause flags_ok_resume flags_ok_stop
      flags_ok_fire, simp add: flags_ok_def)

lemma flags_ok_exec: "flags_ok s \<Longrightarrow> flags_ok (exec opts acts s)"
  unfolding exec_def
  by (induction acts arbitrary: s) (simp_all add: flags_ok_step)

section \<open>Runs that are not stopped\<close>

lemma run_done_still: "run_done opts s tr \<Longrightarrow> still_step s s' \<Longrightarrow> run_done opts s' tr"
  by (simp add: run_done_def still_step_def)

lemma chunk_end_full:
  "\<not> chunk_end opts c < length (data opts) \<Longrightarrow> chunk_end opts c = length (data opts)"
  using chunk_end_le [of opts c] by simp

lemma run_done_chunk:
  assumes ok: "run_ok opts s tr" and ch: "chunk_step opts s s'" and inv: "sched_inv opts s"
  shows "run_done opts s' (tr @ chunk_events opts (currentIndex s))"
proof -
  let ?c = "currentIndex s"
  let ?e = "chunk_end opts ?c"
  have run: "isRunning s" using ch by (simp add: chunk_step_def)
  have c_lt: "?c < length (data opts)" using inv run by (simp add: sched_inv_def)
  have c_le: "?c \<le> ?e" using c_lt by (simp add: chunk_end_ge)
  have len: "length (handler_part tr) = ?c" and nc: "completions tr = []"
    using ok run by (simp_all add: run_ok_def)
  have "handler_part tr = handler_calls opts 0 (length (handler_part tr))"
    using ok by (simp add: run_ok_def)
  then have hp: "handler_part tr = handler_calls opts 0 ?c"
    unfolding len .
  have h': "handler_part (tr @ chunk_events opts ?c) = handler_calls opts 0 ?e"
    by (simp add: handler_part_chunk hp handler_calls_app [OF c_le])
  show ?thesis
  proof (cases "?e < length (data opts)")
    case True
    then show ?thesis using ch by (simp add: run_done_def chunk_step_def)
  next
    case False
    then have "?e = length (data opts)" by (rule chunk_end_full)
    then show ?thesis
      unfolding run_done_def h'
      using ch nc by (simp add: chunk_step_def completions_chunk)
  qed
qed

lemma run_done_start:
  assumes "\<not> isRunning s0"
  shows "run_done opts (start opts s0) (chunk_events opts 0)"
proof (cases "chunk_end opts 0 < length (data opts)")
  case True
  then show ?thesis using start_step(4) [OF assms, of opts] by (simp add: run_done_def)
next
  case False
  then have "chunk_end opts 0 = length (data opts)" by (rule chunk_end_full)
  then show ?thesis
    unfolding run_done_def
    using start_step [OF assms, of opts]
    by (simp add: handler_part_chunk completions_chunk)
qed

lemma run_done_exec:
  assumes "sched_inv opts s" "trace s = t0 @ tr" "run_ok opts s tr" "run_done opts s tr"
    "Start \<notin> set acts" "Stop \<notin> set acts"
  shows "\<exists>tr'. trace (exec opts acts s) = t0 @ tr' \<and> run_done opts (exec opts acts s) tr'"
  using assms
proof (induction acts arbitrary: s tr)
  case Nil
  then show ?case by (simp add: exec_def)
next
  case (Cons a acts)
  let ?s = "step opts a s"
  have a: "a \<noteq> Start" "a \<noteq> Stop" and acts: "Start \<notin> set acts" "Stop \<notin> set acts"
    using Cons.prems(5,6) by auto
  have inv': "sched_inv opts ?s"
    using Cons.prems(1) by (rule sched_inv_step)
  from step_cases_nostop [OF Cons.prems(1) a]
  have "\<exists>tr1. trace ?s = t0 @ tr1 \<and> run_ok opts ?s tr1 \<and> run_done opts ?s tr1"
  proof
    assume q: "still_step s ?s"
    then have "trace ?s = t0 @ tr" using Cons.prems(2) by (simp add: still_step_def)
    moreover have "run_ok opts ?s tr"
      using Cons.prems(3) still_quiet [OF q] by (rule run_ok_quiet)
    moreover have "run_done opts ?s tr" using Cons.prems(4) q by (rule run_done_still)
    ultimately show ?thesis by blast
  next
    assume c: "chunk_step opts s ?s"
    then have "trace ?s = t0 @ (tr @ chunk_events opts (currentIndex s))"
      using Cons.prems(2) by (simp add: chunk_step_def)
    moreover have "run_ok opts ?s (tr @ chunk_events opts (currentIndex s))"
      using Cons.prems(3) c Cons.prems(1) by (rule run_ok_chunk)
    moreover have "run_done opts ?s (tr @ chunk_events opts (currentIndex s))"
      using Cons.prems(3) c Cons.prems(1) by (rule run_done_chunk)
    ultimately show ?thesis by blast
  qed
  then obtain tr1 where t1: "trace ?s = t0 @ tr1" and ok1: "run_ok opts ?s tr1"
    and d1: "run_done opts ?s tr1"
    by blast
  from Cons.IH [OF inv' t1 ok1 d1 acts]
  show ?case by (simp add: exec_def)
qed

lemma run_events_done:
  assumes "sched_inv opts s0" "\<not> isRunning s0" "Start \<notin> set acts" "Stop \<notin> set acts"
  shows "run_done opts (exec opts acts (start opts s0)) (run_events s0 (exec opts acts (start opts s0)))"
proof -
  have "\<exists>tr'. trace (exec opts acts (start opts s0)) = trace s0 @ tr' \<and>
          run_done opts (exec opts acts (start opts s0)) tr'"
    using assms
    by (intro run_done_exec [where tr = "chunk_events opts 0"])
       (simp_all add: sched_inv_start start_step run_ok_start run_done_start)
  then show ?thesis
    by (auto simp: run_events_def)
qed

lemma host_not_op: "is_host a \<Longrightarrow> a \<noteq> Start \<and> a \<noteq> Stop \<and> a \<noteq> Pause \<and> a \<noteq> Resume"
  by (cases a) simp_all

lemma results_upto_nth: "i < k \<Longrightarrow> results_upto opts k ! i = Some (handler opts (data opts ! i) i)"
  by (simp add: results_upto_def)

section \<open>States where only the clock moves\<close>

lemma completions_at_most_once:
  assumes "completions (butlast tr) = []"
  shows "length (completions tr) \<le> 1"
proof (cases "tr = []")
  case True
  then show ?thesis by simp
next
  case False
  then have "tr = butlast tr @ [last tr]" by simp
  then have "completions tr = completions (butlast tr) @ completions [last tr]"
    by (metis completions_append)
  then show ?thesis using assms by simp
qed

lemma step_only_clock:
  assumes "timers s = []" "is_host a \<or> (\<not> isRunning s \<and> a \<noteq> Start)"
  shows "step opts a s = s\<lparr> now := now (step opts a s) \<rparr>"
  using assms
  by (cases a) (auto simp: pause_def resume_def stop_def fire_def due_timers_def)

lemma exec_only_clock:
  assumes "timers s = []" "(\<forall>a \<in> set acts. is_host a) \<or> (\<not> isRunning s \<and> Start \<notin> set acts)"
  shows "exec opts acts s = s\<lparr> now := now (exec opts acts s) \<rparr>"
  using assms
proof (induction acts arbitrary: s)
  case Nil
  then show ?case by (simp add: exec_def)
next
  case (Cons a acts)
  let ?m = "step opts a s"
  have st: "?m = s\<lparr> now := now ?m \<rparr>"
    using Cons.prems by (intro step_only_clock) auto
  have t: "timers ?m = []" and r: "isRunning ?m = isRunning s"
    using Cons.prems(1) by (subst st, simp)+
  have "exec opts acts ?m = ?m\<lparr> now := now (exec opts acts ?m) \<rparr>"
    using Cons.prems(2) t r by (intro Cons.IH) auto
  then have "exec opts acts ?m = s\<lparr> now := now (exec opts acts ?m) \<rparr>"
    by (subst (asm) (2) st) simp
  then show ?case by (simp add: exec_def)
qed

lemma stop_fields:
  assumes "sched_inv opts s" "isRunning s"
  shows "currentIndex (stop s) = 0" "result (stop s) = []" "timers (stop s) = []"
    "timeoutId (stop s) = None" "\<not> isRunning (stop s)" "\<not> isPaused (stop s)"
    "trace (stop s) = trace s"
  using assms
  by (cases "timers s"; cases "timeoutId s"; simp add: stop_def sched_inv_def clearTimeout_def)+

lemma pause_fields:
  assumes "sched_inv opts s" "isRunning s" "\<not> isPaused s"
  shows "timers s \<noteq> []" "timers (pause s) = []" "timeoutId (pause s) = None"
    "isRunning (pause s)" "isPaused (pause s)" "currentIndex (pause s) = currentIndex s"
    "trace (pause s) = trace s" "result (pause s) = result s"
  using assms
  by (cases "timers s"; cases "timeoutId s"; simp add: pause_def sched_inv_def clearTimeout_def)+

lemma reach_inv: "sched_inv opts (exec opts pre init)"
  by (rule sched_inv_exec) (rule sched_inv_init)

lemma run_events_app: "trace s' = trace s @ ev \<Longrightarrow> run_events s s' = ev"
  by (simp add: run_events_def)

lemma run_events_same: "trace s' = trace s \<Longrightarrow> run_events s s' = []"
  by (simp add: run_events_def)

lemma run_trace_prefix:
  assumes "sched_inv opts s0" "\<not> isRunning s0" "Start \<notin> set acts"
  shows "trace (exec opts acts (start opts s0))
         = trace s0 @ run_events s0 (exec opts acts (start opts s0))"
proof -
  have "\<exists>tr'. trace (exec opts acts (start opts s0)) = trace s0 @ tr' \<and>
          run_ok opts (exec opts acts (start opts s0)) tr'"
    using assms
    by (intro run_ok_exec [where tr = "chunk_events opts 0"])
       (simp_all add: sched_inv_start start_step run_ok_start)
  then show ?thesis
    by (auto simp: run_events_def)
qed

lemma resume_fields:
  assumes "sched_inv opts s" "isRunning s" "isPaused s"
  shows "\<not> isPaused (resume opts s)" "now (resume opts s) = now s"
    "currentIndex (resume opts s) = chunk_end opts (currentIndex s)"
    "isRunning (resume opts s) \<longleftrightarrow> chunk_end opts (currentIndex s) < length (data opts)"
    "trace (resume opts s) = trace s @ chunk_events opts (currentIndex s)"
proof -
  have "resume opts s = processChunk opts (s\<lparr> isPaused := False \<rparr>)"
    using assms by (simp add: resume_def)
  moreover have "processChunk opts (s\<lparr> isPaused := False \<rparr>) = 
     (if chunk_end opts (currentIndex s) < length (data opts)
      then s\<lparr> isPaused := False, result := results_upto opts (chunk_end opts (currentIndex s)),
              trace := trace s @ chunk_events opts (currentIndex s),
              currentIndex := chunk_end opts (currentIndex s),
              timers := timers s @ [(nextTimerId s, now s + interval_of opts)],
              nextTimerId := Suc (nextTimerId s),
              timeoutId := Some (nextTimerId s) \<rparr>
      else s\<lparr> isPaused := False, result := results_upto opts (chunk_end opts (currentIndex s)),
              trace := trace s @ chunk_events opts (currentIndex s),
              currentIndex := chunk_end opts (currentIndex s),
              isRunning := False \<rparr>)"
    using assms by (subst processChunk_running) (simp_all add: sched_inv_def)
  ultimately have eq: "resume opts s = 
     (if chunk_end opts (currentIndex s) < length (data opts)
      then s\<lparr> isPaused := False, result := results_upto opts (chunk_end opts (currentIndex s)),
              trace := trace s @ chunk_events opts (currentIndex s),
              currentIndex := chunk_end opts (currentIndex s),
              timers := timers s @ [(nextTimerId s, now s + interval_of opts)],
              nextTimerId := Suc (nextTimerId s),
              timeoutId := Some (nextTimerId s) \<rparr>
      else s\<lparr> isPaused := False, result := results_upto opts (chunk_end opts (currentIndex s)),
              trace := trace s @ chunk_events opts (currentIndex s),
              currentIndex := chunk_end opts (currentIndex s),
              isRunning := False \<rparr>)"
    by simp
  show "\<not> isPaused (resume opts s)" "now (resume opts s) = now s"
    "currentIndex (resume opts s) = chunk_end opts (currentIndex s)"
    "isRunning (resume opts s) \<longleftrightarrow> chunk_end opts (currentIndex s) < length (data opts)"
    "trace (resume opts s) = trace s @ chunk_events opts (currentIndex s)"
    using assms(2) by (simp_all add: eq)
qed

lemma start_inactive:
  assumes "\<not> isRunning s"
  shows "start opts s =
     (if chunk_end opts 0 < length (data opts)
      then s\<lparr> isRunning := True, isPaused := False,
              result := results_upto opts (chunk_end opts 0),
              trace := trace s @ chunk_events opts 0,
              currentIndex := chunk_end opts 0,
              timers := timers s @ [(nextTimerId s, now s + interval_of opts)],
              nextTimerId := Suc (nextTimerId s),
              timeoutId := Some (nextTimerId s) \<rparr>
      else s\<lparr> isRunning := False, isPaused := False,
              result := results_upto opts (chunk_end opts 0),
              trace := trace s @ chunk_events opts 0,
              currentIndex := chunk_end opts 0 \<rparr>)"
proof -
  let ?r = "s\<lparr> isRunning := True, isPaused := False, currentIndex := 0, result := [] \<rparr>"
  have "start opts s = processChunk opts ?r"
    using assms by (simp add: start_def)
  also have "\<dots> = (if chunk_end opts 0 < length (data opts)
      then s\<lparr> isRunning := True, isPaused := False,
              result := results_upto opts (chunk_end opts 0),
              trace := trace s @ chunk_events opts 0,
              currentIndex := chunk_end opts 0,
              timers := timers s @ [(nextTimerId s, now s + interval_of opts)],
              nextTimerId := Suc (nextTimerId s),
              timeoutId := Some (nextTimerId s) \<rparr>
      else s\<lparr> isRunning := False, isPaused := False,
              result := results_upto opts (chunk_end opts 0),
              trace := trace s @ chunk_events opts 0,
              currentIndex := chunk_end opts 0 \<rparr>)"
    by (subst processChunk_running) (simp_all add: results_upto_def)
  finally show ?thesis .
qed

lemma fire_trace:
  assumes "sched_inv opts s" "due_timers s \<noteq> []"
  shows "trace (fire opts s) = trace s @ chunk_events opts (currentIndex s)"
proof -
  have run: "isRunning s \<and> \<not> isPaused s"
    using assms by (rule due_timers_running)
  have "chunk_step opts (s\<lparr> timers := [] \<rparr>) (processChunk opts (s\<lparr> timers := [] \<rparr>))"
    using assms(1) run by (intro chunk_step_processChunk) (simp_all add: sched_inv_def)
  then show ?thesis
    using assms by (simp add: fire_eq chunk_step_def)
qed

section \<open>A run left to the host completes\<close>

text \<open>
  For a chunk size of at least one, a run that is started and then left to the host, which
  waits one interval and runs the due timer as many times as there are items, has
  completed: the hypothesis of a completed run below is met by every configuration.
\<close>

lemma host_rounds_host: "\<forall>a \<in> set (host_rounds opts m). is_host a"
  by (induction m) (simp_all add: host_rounds_def)

lemma exec_append: "exec opts (xs @ ys) s = exec opts ys (exec opts xs s)"
  by (simp add: exec_def)

lemma host_round_running:
  assumes inv: "sched_inv opts s" and run: "isRunning s" "\<not> isPaused s"
  shows "chunk_step opts s (exec opts [Elapse (interval_of opts), Fire] s)"
    and "\<not> isPaused (exec opts [Elapse (interval_of opts), Fire] s)"
proof -
  let ?m = "s\<lparr> now := now s + interval_of opts \<rparr>"
  have inv_m: "sched_inv opts ?m"
    using inv by (rule sched_inv_elapse)
  obtain t where t: "timers s = [t]" "snd t \<le> now s + interval_of opts"
    using inv run by (cases "timers s") (auto simp: sched_inv_def)
  have due: "due_timers ?m \<noteq> []"
    using t by (simp add: due_timers_def)
  have eq: "exec opts [Elapse (interval_of opts), Fire] s = processChunk opts (?m\<lparr> timers := [] \<rparr>)"
    using inv_m due by (simp add: exec_def fire_eq)
  have "chunk_step opts (?m\<lparr> timers := [] \<rparr>) (processChunk opts (?m\<lparr> timers := [] \<rparr>))"
    using inv run by (intro chunk_step_processChunk) (simp_all add: sched_inv_def)
  then show "chunk_step opts s (exec opts [Elapse (interval_of opts), Fire] s)"
    unfolding eq by (rule chunk_step_cong) simp_all
  show "\<not> isPaused (exec opts [Elapse (interval_of opts), Fire] s)"
    unfolding eq using inv run
    by (subst processChunk_running) (simp_all add: sched_inv_def)
qed

lemma run_completes_from:
  assumes "sched_inv opts s" "0 < count_of opts"
    "isRunning s \<longrightarrow> \<not> isPaused s \<and> length (data opts) - currentIndex s \<le> m"
  shows "\<not> isRunning (exec opts (host_rounds opts m) s)"
  using assms
proof (induction m arbitrary: s)
  case 0
  then show ?case
    by (auto simp: host_rounds_def exec_def sched_inv_def)
next
  case (Suc m)
  let ?r = "[Elapse (interval_of opts), Fire]"
  let ?s = "exec opts ?r s"
  have inv': "sched_inv opts ?s"
    using Suc.prems(1) by (rule sched_inv_exec)
  have next_ok: "isRunning ?s \<longrightarrow> \<not> isPaused ?s \<and> length (data opts) - currentIndex ?s \<le> m"
  proof (cases "isRunning s")
    case True
    then have np: "\<not> isPaused s" and le: "length (data opts) - currentIndex s \<le> Suc m"
      using Suc.prems(3) by simp_all
    have c_lt: "currentIndex s < length (data opts)"
      using Suc.prems(1) True by (simp add: sched_inv_def)
    have ch: "chunk_step opts s ?s" and np': "\<not> isPaused ?s"
      using host_round_running [OF Suc.prems(1) True np] by simp_all
    have "currentIndex s < currentIndex ?s"
      using ch chunk_end_gt [OF Suc.prems(2) c_lt] by (simp add: chunk_step_def)
    then have "length (data opts) - currentIndex ?s \<le> m"
      using le by linarith
    then show ?thesis
      using np' by simp
  next
    case False
    have t: "timers s = []"
      using Suc.prems(1) False by (simp add: idle_no_timers)
    have "?s = s\<lparr> now := now ?s \<rparr>"
      using t by (intro exec_only_clock) simp_all
    then have "isRunning ?s = isRunning s"
      by (metis TimeSlice.select_convs(1) TimeSlice.surjective TimeSlice.update_convs(7))
    then show ?thesis using False by simp
  qed
  have "host_rounds opts (Suc m) = ?r @ host_rounds opts m"
    by (simp add: host_rounds_def)
  then have "exec opts (host_rounds opts (Suc m)) s = exec opts (host_rounds opts m) ?s"
    by (simp only: exec_append)
  then show ?case
    using Suc.IH [OF inv' Suc.prems(2) next_ok] by simp
qed

lemma run_completes:
  assumes "0 < count_of opts" "\<not> isRunning (exec opts pre init)"
  shows "\<not> isRunning (exec opts (host_rounds opts (length (data opts)))
                        (start opts (exec opts pre init)))"
proof -
  let ?a = "start opts (exec opts pre init)"
  have inv: "sched_inv opts ?a"
    by (intro sched_inv_start sched_inv_exec sched_inv_init)
  have "isRunning ?a \<longrightarrow> \<not> isPaused ?a \<and> length (data opts) - currentIndex ?a \<le> length (data opts)"
    using start_inactive [OF assms(2), of opts] by simp
  then show ?thesis
    by (rule run_completes_from [OF inv assms(1)])
qed

section \<open>An uninterrupted run\<close>

text \<open>
  Claim C1. From any reachable inactive state, take a run begun by \<open>start\<close> and
  followed only by turns of the host (time passing, timers firing), with no pause and no
  stop. Once the run has completed, \<^verbatim>\<open>onComplete\<close> (if supplied) has been called with one array
  \<open>r\<close> of the length of \<open>data\<close> whose element at every index \<open>i\<close> is
  \<open>handler (data[i], i)\<close>, and the handler calls of the run are exactly the calls on
  the indices \<open>0, 1, ...\<close> in ascending order, one per element.
\<close>

theorem uninterrupted_run_results:
  assumes "\<not> isRunning (exec opts pre init)"
    and "\<forall>a \<in> set acts. is_host a"
    and "\<not> isRunning (exec opts acts (start opts (exec opts pre init)))"
    and "onComplete opts"
  shows "\<exists>r. completions (run_events (exec opts pre init)
                  (exec opts acts (start opts (exec opts pre init)))) = [CompleteCall r] \<and>
             length r = length (data opts) \<and>
             (\<forall>i < length (data opts). r ! i = Some (handler opts (data opts ! i) i)) \<and>
             handler_part (run_events (exec opts pre init)
                  (exec opts acts (start opts (exec opts pre init))))
               = map (\<lambda>i. HandlerCall (data opts ! i) i) [0..<length (data opts)]"
proof -
  let ?i = "exec opts pre init"
  let ?f = "exec opts acts (start opts ?i)"
  have inv: "sched_inv opts ?i"
    by (rule sched_inv_exec) (rule sched_inv_init)
  have no: "Start \<notin> set acts" "Stop \<notin> set acts"
    using assms(2) by (auto dest: host_not_op)
  have "run_done opts ?f (run_events ?i ?f)"
    by (rule run_events_done [OF inv assms(1) no])
  then have c: "completions (run_events ?i ?f) = [CompleteCall (results_upto opts (length (data opts)))]"
    and h: "handler_part (run_events ?i ?f) = handler_calls opts 0 (length (data opts))"
    using assms(3,4) by (simp_all add: run_done_def)
  show ?thesis
    using c h by (simp add: results_upto_nth handler_calls_def)
qed

theorem uninterrupted_run_results_witness:
  "\<not> isRunning (exec ex_opts [Start, Stop] init) \<and>
   list_all is_host [Elapse 100, Fire, Elapse 100, Fire] \<and>
   \<not> isRunning (exec ex_opts [Elapse 100, Fire, Elapse 100, Fire]
                  (start ex_opts (exec ex_opts [Start, Stop] init))) \<and>
   onComplete ex_opts \<and>
   (\<exists>r. completions (run_events (exec ex_opts [Start, Stop] init)
            (exec ex_opts [Elapse 100, Fire, Elapse 100, Fire]
               (start ex_opts (exec ex_opts [Start, Stop] init)))) = [CompleteCall r] \<and>
        length r = length (data ex_opts) \<and>
        (\<forall>i < length (data ex_opts). r ! i = Some (handler ex_opts (data ex_opts ! i) i)) \<and>
        handler_part (run_events (exec ex_opts [Start, Stop] init)
            (exec ex_opts [Elapse 100, Fire, Elapse 100, Fire]
               (start ex_opts (exec ex_opts [Start, Stop] init))))
          = map (\<lambda>i. HandlerCall (data ex_opts ! i) i) [0..<length (data ex_opts)])"
proof -
  have h1: "\<not> isRunning (exec ex_opts [Start, Stop] init)" by code_simp
  have h2: "\<forall>a \<in> set [Elapse 100, Fire, Elapse 100, Fire]. is_host a" by simp
  have h3: "\<not> isRunning (exec ex_opts [Elapse 100, Fire, Elapse 100, Fire]
                  (start ex_opts (exec ex_opts [Start, Stop] init)))" by code_simp
  have h4: "onComplete ex_opts" by (simp add: ex_opts_def)
  have h2': "list_all is_host [Elapse 100, Fire, Elapse 100, Fire]" by simp
  show ?thesis
    using h1 h2' h3 h4 uninterrupted_run_results [OF h1 h2 h3 h4] by blast
qed

section \<open>The order of the callbacks of a run\<close>

text \<open>
  Claim C2, as the code has it. Take a run from its \<open>start\<close> through any operations and
  host turns but a new \<open>start\<close>. \<^verbatim>\<open>onComplete\<close> is called at most once, and a call of
  it is the last event of the run, so no progress call follows it. Every progress call
  carries the length of \<open>data\<close>; for a chunk size of at least one the cursors of the
  progress calls increase strictly; while the run is active there is no completion yet
  and no progress cursor exceeds the scheduler's cursor; each chunk step makes one
  progress call, with the new cursor. A run that has ended without \<open>stop\<close> has exactly
  one call of \<^verbatim>\<open>onComplete\<close>, with the complete results.
\<close>

theorem run_callback_order:
  "let s0 = exec opts pre init; s = exec opts acts (start opts s0); tr = run_events s0 s
   in \<not> isRunning s0 \<and> Start \<notin> set acts \<longrightarrow>
        length (completions tr) \<le> 1 \<and> completions (butlast tr) = [] \<and>
        (\<forall>p \<in> set (progress_args tr). snd p = length (data opts)) \<and>
        (0 < count_of opts \<longrightarrow> sorted_wrt (<) (map fst (progress_args tr))) \<and>
        (isRunning s \<longrightarrow>
           completions tr = [] \<and> (\<forall>p \<in> set (progress_args tr). fst p \<le> currentIndex s)) \<and>
        (isRunning s \<and> \<not> isPaused s \<longrightarrow>
           progress_args (run_events s (processChunk opts s))
             = (if onProgress opts
                then [(currentIndex (processChunk opts s), length (data opts))] else [])) \<and>
        (\<not> isRunning s \<and> Stop \<notin> set acts \<and> onComplete opts \<longrightarrow>
           completions tr = [CompleteCall (results_upto opts (length (data opts)))])"
proof -
  let ?i = "exec opts pre init"
  let ?a = "exec opts acts (start opts ?i)"
  let ?t = "run_events ?i ?a"
  have main: "length (completions ?t) \<le> 1 \<and> completions (butlast ?t) = [] \<and>
        (\<forall>p \<in> set (progress_args ?t). snd p = length (data opts)) \<and>
        (0 < count_of opts \<longrightarrow> sorted_wrt (<) (map fst (progress_args ?t))) \<and>
        (isRunning ?a \<longrightarrow>
           completions ?t = [] \<and> (\<forall>p \<in> set (progress_args ?t). fst p \<le> currentIndex ?a)) \<and>
        (isRunning ?a \<and> \<not> isPaused ?a \<longrightarrow>
           progress_args (run_events ?a (processChunk opts ?a))
             = (if onProgress opts
                then [(currentIndex (processChunk opts ?a), length (data opts))] else [])) \<and>
        (\<not> isRunning ?a \<and> Stop \<notin> set acts \<and> onComplete opts \<longrightarrow>
           completions ?t = [CompleteCall (results_upto opts (length (data opts)))])"
    if h: "\<not> isRunning ?i" "Start \<notin> set acts"
  proof -
    have inv_a: "sched_inv opts ?a"
      by (intro sched_inv_exec sched_inv_start reach_inv)
    have ok: "run_ok opts ?a ?t"
      by (rule run_events_ok [OF reach_inv h(1) h(2)])
    have 1: "completions (butlast ?t) = []"
      using ok by (simp add: run_ok_def)
    have 2: "length (completions ?t) \<le> 1"
      using 1 by (rule completions_at_most_once)
    have 3: "\<forall>p \<in> set (progress_args ?t). snd p = length (data opts)"
      using ok by (simp add: run_ok_def)
    have 4: "0 < count_of opts \<longrightarrow> sorted_wrt (<) (map fst (progress_args ?t))"
      using ok by (simp add: run_ok_def)
    have 5: "isRunning ?a \<longrightarrow>
           completions ?t = [] \<and> (\<forall>p \<in> set (progress_args ?t). fst p \<le> currentIndex ?a)"
      using ok by (simp add: run_ok_def)
    have 6: "progress_args (run_events ?a (processChunk opts ?a))
             = (if onProgress opts
                then [(currentIndex (processChunk opts ?a), length (data opts))] else [])"
      if r: "isRunning ?a \<and> \<not> isPaused ?a"
    proof -
      have "chunk_step opts ?a (processChunk opts ?a)"
        using inv_a r by (intro chunk_step_processChunk) (simp_all add: sched_inv_def)
      then have "run_events ?a (processChunk opts ?a) = chunk_events opts (currentIndex ?a)"
        and "currentIndex (processChunk opts ?a) = chunk_end opts (currentIndex ?a)"
        by (simp_all add: chunk_step_def run_events_app)
      then show ?thesis
        by (simp add: progress_args_chunk)
    qed
    have 7: "completions ?t = [CompleteCall (results_upto opts (length (data opts)))]"
      if d: "\<not> isRunning ?a \<and> Stop \<notin> set acts \<and> onComplete opts"
    proof -
      have "run_done opts ?a ?t"
        using d by (intro run_events_done [OF reach_inv h(1) h(2)]) simp
      then show ?thesis
        using d by (simp add: run_done_def)
    qed
    show ?thesis
      using 1 2 3 4 5 6 7 by blast
  qed
  show ?thesis
    unfolding Let_def using main by blast
qed

theorem run_callback_order_witness:
  "\<not> isRunning (exec ex_opts [] init) \<and> Start \<notin> set [Pause, Elapse 100, Resume] \<and>
   0 < count_of ex_opts \<and>
   isRunning (exec ex_opts [Pause, Elapse 100, Resume] (start ex_opts (exec ex_opts [] init))) \<and>
   \<not> isPaused (exec ex_opts [Pause, Elapse 100, Resume]
                 (start ex_opts (exec ex_opts [] init))) \<and>
   sorted_wrt (<) (map fst (progress_args (run_events (exec ex_opts [] init)
      (exec ex_opts [Pause, Elapse 100, Resume] (start ex_opts (exec ex_opts [] init)))))) \<and>
   completions (run_events (exec ex_opts [] init)
      (exec ex_opts [Pause, Elapse 100, Resume] (start ex_opts (exec ex_opts [] init)))) = [] \<and>
   Start \<notin> set [Elapse 100, Fire, Elapse 100, Fire] \<and>
   Stop \<notin> set [Elapse 100, Fire, Elapse 100, Fire] \<and> onComplete ex_opts \<and>
   \<not> isRunning (exec ex_opts [Elapse 100, Fire, Elapse 100, Fire]
                  (start ex_opts (exec ex_opts [] init))) \<and>
   completions (run_events (exec ex_opts [] init)
      (exec ex_opts [Elapse 100, Fire, Elapse 100, Fire] (start ex_opts (exec ex_opts [] init))))
     = [CompleteCall (results_upto ex_opts (length (data ex_opts)))]"
proof -
  have a1: "\<not> isRunning (exec ex_opts [] init)" by code_simp
  have a2: "Start \<notin> set [Pause, Elapse 100, Resume]" by simp
  have a3: "0 < count_of ex_opts" by (simp add: count_of_def ex_opts_def)
  have a4: "isRunning (exec ex_opts [Pause, Elapse 100, Resume]
              (start ex_opts (exec ex_opts [] init)))" by code_simp
  have a5: "\<not> isPaused (exec ex_opts [Pause, Elapse 100, Resume]
                 (start ex_opts (exec ex_opts [] init)))" by code_simp
  have b1: "Start \<notin> set [Elapse 100, Fire, Elapse 100, Fire]" by simp
  have b2: "Stop \<notin> set [Elapse 100, Fire, Elapse 100, Fire]" by simp
  have b3: "onComplete ex_opts" by (simp add: ex_opts_def)
  have b4: "\<not> isRunning (exec ex_opts [Elapse 100, Fire, Elapse 100, Fire]
                  (start ex_opts (exec ex_opts [] init)))" by code_simp
  show ?thesis
    using a1 a2 a3 a4 a5 b1 b2 b3 b4
      run_callback_order [where opts = ex_opts and pre = "[]"
        and acts = "[Pause, Elapse 100, Resume]", unfolded Let_def]
      run_callback_order [where opts = ex_opts and pre = "[]"
        and acts = "[Elapse 100, Fire, Elapse 100, Fire]", unfolded Let_def]
    by blast
qed

text \<open>
  As the claim is written, every run has exactly one call of \<^verbatim>\<open>onComplete\<close>. A run
  that is stopped has none: five items in chunks of two, \<open>start\<close> and then \<open>stop\<close>, and
  the timer turns that follow.
\<close>

theorem completion_once_per_run_counterexample:
  "isRunning (start ex_opts init) \<and>
   \<not> isRunning (exec ex_opts [Stop, Elapse 100, Fire, Elapse 100, Fire] (start ex_opts init)) \<and>
   completions (run_events init
      (exec ex_opts [Stop, Elapse 100, Fire, Elapse 100, Fire] (start ex_opts init))) = []"
  by code_simp

section \<open>The pending timer and its handle\<close>

text \<open>
  Claim C3, as the code has it. A continuation is pending in the host's queue exactly
  while the scheduler is running and not paused; there is then exactly one, the variable
  \<^verbatim>\<open>timeoutId\<close> holds its handle and the cursor is short of the end. A paused
  scheduler has no handle, and \<open>pause\<close> and \<open>stop\<close> clear both the queue and the handle.
  The final chunk step leaves no continuation pending, but it does not touch
  \<^verbatim>\<open>timeoutId\<close>: the variable keeps the handle of the timer that has just fired.
\<close>

theorem pending_timer_invariant:
  "let s = exec opts acts init
   in (timers s \<noteq> [] \<longleftrightarrow> isRunning s \<and> \<not> isPaused s) \<and>
      (timers s \<noteq> [] \<longrightarrow>
         length (timers s) = 1 \<and> timeoutId s = Some (fst (hd (timers s))) \<and>
         currentIndex s < length (data opts)) \<and>
      (isPaused s \<longrightarrow> timeoutId s = None) \<and>
      (isRunning s \<longrightarrow> timeoutId (stop s) = None \<and> timers (stop s) = []) \<and>
      (isRunning s \<and> \<not> isPaused s \<longrightarrow> timeoutId (pause s) = None \<and> timers (pause s) = []) \<and>
      (due_timers s \<noteq> [] \<and> length (data opts) \<le> currentIndex s + count_of opts \<longrightarrow>
         \<not> isRunning (fire opts s) \<and> timers (fire opts s) = [] \<and>
         timeoutId (fire opts s) = timeoutId s \<and> timeoutId s \<noteq> None)"
proof -
  let ?a = "exec opts acts init"
  have inv: "sched_inv opts ?a" by (rule reach_inv)
  have 1: "timers ?a \<noteq> [] \<longleftrightarrow> isRunning ?a \<and> \<not> isPaused ?a"
    using inv by (cases "timers ?a") (simp_all add: sched_inv_def)
  have 2: "timers ?a \<noteq> [] \<longrightarrow>
         length (timers ?a) = 1 \<and> timeoutId ?a = Some (fst (hd (timers ?a))) \<and>
         currentIndex ?a < length (data opts)"
    using inv by (cases "timers ?a") (simp_all add: sched_inv_def)
  have 3: "isPaused ?a \<longrightarrow> timeoutId ?a = None"
    using inv by (simp add: sched_inv_def)
  have 4: "isRunning ?a \<longrightarrow> timeoutId (stop ?a) = None \<and> timers (stop ?a) = []"
    using stop_fields [OF inv] by simp
  have 5: "isRunning ?a \<and> \<not> isPaused ?a \<longrightarrow> timeoutId (pause ?a) = None \<and> timers (pause ?a) = []"
    using pause_fields [OF inv] by simp
  have 6: "\<not> isRunning (fire opts ?a) \<and> timers (fire opts ?a) = [] \<and>
         timeoutId (fire opts ?a) = timeoutId ?a \<and> timeoutId ?a \<noteq> None"
    if h: "due_timers ?a \<noteq> []" "length (data opts) \<le> currentIndex ?a + count_of opts"
  proof -
    have run: "isRunning ?a \<and> \<not> isPaused ?a"
      using inv h(1) by (rule due_timers_running)
    have ne: "timers ?a \<noteq> []" using 1 run by simp
    have e: "\<not> chunk_end opts (currentIndex ?a) < length (data opts)"
      using h(2) by (simp add: chunk_end_def)
    have "fire opts ?a = processChunk opts (?a\<lparr> timers := [] \<rparr>)"
      using inv h(1) by (simp add: fire_eq)
    also have "\<dots> = ?a\<lparr> timers := [],
              result := results_upto opts (chunk_end opts (currentIndex ?a)),
              trace := trace ?a @ chunk_events opts (currentIndex ?a),
              currentIndex := chunk_end opts (currentIndex ?a),
              isRunning := False \<rparr>"
      using inv run e by (subst processChunk_running) (simp_all add: sched_inv_def)
    finally have eq: "fire opts ?a = ?a\<lparr> timers := [],
              result := results_upto opts (chunk_end opts (currentIndex ?a)),
              trace := trace ?a @ chunk_events opts (currentIndex ?a),
              currentIndex := chunk_end opts (currentIndex ?a),
              isRunning := False \<rparr>" .
    show ?thesis
      using 2 ne by (simp add: eq)
  qed
  show ?thesis
    unfolding Let_def using 1 2 3 4 5 6 by blast
qed

theorem pending_timer_invariant_witness:
  "timers (exec ex_two [Start, Elapse 16] init) \<noteq> [] \<and>
   isRunning (exec ex_two [Start, Elapse 16] init) \<and>
   \<not> isPaused (exec ex_two [Start, Elapse 16] init) \<and>
   due_timers (exec ex_two [Start, Elapse 16] init) \<noteq> [] \<and>
   length (data ex_two) \<le> currentIndex (exec ex_two [Start, Elapse 16] init) + count_of ex_two \<and>
   length (timers (exec ex_two [Start, Elapse 16] init)) = 1 \<and>
   timers (pause (exec ex_two [Start, Elapse 16] init)) = [] \<and>
   timers (stop (exec ex_two [Start, Elapse 16] init)) = [] \<and>
   \<not> isRunning (fire ex_two (exec ex_two [Start, Elapse 16] init)) \<and>
   timers (fire ex_two (exec ex_two [Start, Elapse 16] init)) = [] \<and>
   timeoutId (fire ex_two (exec ex_two [Start, Elapse 16] init)) \<noteq> None \<and>
   isPaused (exec ex_two [Start, Pause] init) \<and>
   timeoutId (exec ex_two [Start, Pause] init) = None"
proof -
  have a1: "timers (exec ex_two [Start, Elapse 16] init) \<noteq> []" by code_simp
  have a2: "due_timers (exec ex_two [Start, Elapse 16] init) \<noteq> []" by code_simp
  have a3: "length (data ex_two)
            \<le> currentIndex (exec ex_two [Start, Elapse 16] init) + count_of ex_two" by code_simp
  have b1: "isPaused (exec ex_two [Start, Pause] init)" by code_simp
  show ?thesis
    using a1 a2 a3 b1
      pending_timer_invariant [where opts = ex_two and acts = "[Start, Elapse 16]",
        unfolded Let_def]
      pending_timer_invariant [where opts = ex_two and acts = "[Start, Pause]",
        unfolded Let_def]
    by metis
qed

text \<open>
  As the claim is written, the handle is absent once the scheduler has completed. Two
  items in chunks of one: the first chunk runs in \<open>start\<close> and queues timer 1; when it
  fires the second chunk completes the run, and \<^verbatim>\<open>timeoutId\<close> still holds 1.
\<close>

theorem handle_cleared_on_completion_counterexample:
  "isRunning (exec ex_two [Start, Elapse 16] init) \<and>
   \<not> isRunning (exec ex_two [Start, Elapse 16, Fire] init) \<and>
   completions (trace (exec ex_two [Start, Elapse 16, Fire] init))
     = [CompleteCall [Some 2, Some 4]] \<and>
   timers (exec ex_two [Start, Elapse 16, Fire] init) = [] \<and>
   timeoutId (exec ex_two [Start, Elapse 16, Fire] init) = Some 1"
  by code_simp

section \<open>What each operation invokes\<close>

text \<open>
  Claim C4, as the code has it. Every operation is a total function that runs at most
  one chunk step (at most \<open>count\<close> handler calls). \<open>start\<close> from an inactive state and
  \<open>resume\<close> from a paused one run one chunk step inside the call: its handler calls,
  one call of \<^verbatim>\<open>onProgress\<close>, and the call of \<^verbatim>\<open>onComplete\<close> when that chunk
  reaches the end of \<open>data\<close>. The later chunks run in a turn of the host, when the timer
  fires. \<open>pause\<close>, \<open>stop\<close>, and \<open>start\<close>, \<open>resume\<close> and timer turns that do not apply,
  invoke nothing.
\<close>

theorem operations_and_callbacks:
  "let s = exec opts pre init
   in (\<not> isRunning s \<longrightarrow> run_events s (start opts s) = chunk_events opts 0) \<and>
      (isRunning s \<and> isPaused s \<longrightarrow>
         run_events s (resume opts s) = chunk_events opts (currentIndex s)) \<and>
      (due_timers s \<noteq> [] \<longrightarrow>
         run_events s (fire opts s) = chunk_events opts (currentIndex s)) \<and>
      (isRunning s \<longrightarrow> run_events s (start opts s) = []) \<and>
      (\<not> (isRunning s \<and> isPaused s) \<longrightarrow> run_events s (resume opts s) = []) \<and>
      (due_timers s = [] \<longrightarrow> run_events s (fire opts s) = []) \<and>
      run_events s (pause s) = [] \<and> run_events s (stop s) = [] \<and>
      progress_args (chunk_events opts c)
        = (if onProgress opts
           then [(min (c + count_of opts) (length (data opts)), length (data opts))] else []) \<and>
      completions (chunk_events opts c)
        = (if c + count_of opts < length (data opts) then []
           else if onComplete opts
           then [CompleteCall (results_upto opts (length (data opts)))] else []) \<and>
      length (handler_part (chunk_events opts c)) \<le> count_of opts"
proof -
  let ?a = "exec opts pre init"
  have inv: "sched_inv opts ?a" by (rule reach_inv)
  have 1: "\<not> isRunning ?a \<longrightarrow> run_events ?a (start opts ?a) = chunk_events opts 0"
    by (simp add: run_events_app start_step(1))
  have 2: "isRunning ?a \<and> isPaused ?a \<longrightarrow>
         run_events ?a (resume opts ?a) = chunk_events opts (currentIndex ?a)"
    using resume_fields(5) [OF inv] by (simp add: run_events_app)
  have 3: "due_timers ?a \<noteq> [] \<longrightarrow>
         run_events ?a (fire opts ?a) = chunk_events opts (currentIndex ?a)"
    using fire_trace [OF inv] by (simp add: run_events_app)
  have 4: "isRunning ?a \<longrightarrow> run_events ?a (start opts ?a) = []"
    by (simp add: start_def run_events_def)
  have 5: "\<not> (isRunning ?a \<and> isPaused ?a) \<longrightarrow> run_events ?a (resume opts ?a) = []"
    by (auto simp: resume_def run_events_def)
  have 6: "due_timers ?a = [] \<longrightarrow> run_events ?a (fire opts ?a) = []"
    using inv by (simp add: fire_eq run_events_def)
  have 7: "run_events ?a (pause ?a) = []"
    using pause_still [of ?a] by (simp add: still_step_def run_events_def)
  have 8: "run_events ?a (stop ?a) = []"
    using stop_quiet [of ?a] by (simp add: quiet_step_def run_events_def)
  have 9: "progress_args (chunk_events opts c)
        = (if onProgress opts
           then [(min (c + count_of opts) (length (data opts)), length (data opts))] else [])"
    by (simp add: progress_args_chunk chunk_end_def)
  have 10: "completions (chunk_events opts c)
        = (if c + count_of opts < length (data opts) then []
           else if onComplete opts
           then [CompleteCall (results_upto opts (length (data opts)))] else [])"
    by (simp add: completions_chunk chunk_end_def)
  have 11: "length (handler_part (chunk_events opts c)) \<le> count_of opts"
    by (simp add: handler_part_chunk chunk_end_def)
  show ?thesis
    unfolding Let_def using 1 2 3 4 5 6 7 8 9 10 11 by blast
qed

theorem operations_and_callbacks_witness:
  "\<not> isRunning (exec ex_opts [] init) \<and>
   run_events (exec ex_opts [] init) (start ex_opts (exec ex_opts [] init))
     = chunk_events ex_opts 0 \<and>
   isRunning (exec ex_opts [Start, Pause] init) \<and> isPaused (exec ex_opts [Start, Pause] init) \<and>
   due_timers (exec ex_opts [Start, Pause] init) = [] \<and>
   run_events (exec ex_opts [Start, Pause] init) (resume ex_opts (exec ex_opts [Start, Pause] init))
     = chunk_events ex_opts (currentIndex (exec ex_opts [Start, Pause] init)) \<and>
   run_events (exec ex_opts [Start, Pause] init) (start ex_opts (exec ex_opts [Start, Pause] init))
     = [] \<and>
   run_events (exec ex_opts [Start, Pause] init) (fire ex_opts (exec ex_opts [Start, Pause] init))
     = [] \<and>
   due_timers (exec ex_opts [Start, Elapse 100] init) \<noteq> [] \<and>
   \<not> (isRunning (exec ex_opts [Start, Elapse 100] init) \<and>
      isPaused (exec ex_opts [Start, Elapse 100] init)) \<and>
   run_events (exec ex_opts [Start, Elapse 100] init)
       (fire ex_opts (exec ex_opts [Start, Elapse 100] init))
     = chunk_events ex_opts (currentIndex (exec ex_opts [Start, Elapse 100] init)) \<and>
   run_events (exec ex_opts [Start, Elapse 100] init)
       (resume ex_opts (exec ex_opts [Start, Elapse 100] init)) = [] \<and>
   onProgress ex_opts \<and>
   progress_args (chunk_events ex_opts 0)
     = [(min (0 + count_of ex_opts) (length (data ex_opts)), length (data ex_opts))]"
proof -
  have a1: "\<not> isRunning (exec ex_opts [] init)" by code_simp
  have b1: "isRunning (exec ex_opts [Start, Pause] init)" by code_simp
  have b2: "isPaused (exec ex_opts [Start, Pause] init)" by code_simp
  have b3: "due_timers (exec ex_opts [Start, Pause] init) = []" by code_simp
  have c1: "due_timers (exec ex_opts [Start, Elapse 100] init) \<noteq> []" by code_simp
  have c2: "\<not> (isRunning (exec ex_opts [Start, Elapse 100] init) \<and>
      isPaused (exec ex_opts [Start, Elapse 100] init))" by code_simp
  have d1: "onProgress ex_opts" by (simp add: ex_opts_def)
  show ?thesis
    using a1 b1 b2 b3 c1 c2 d1
      operations_and_callbacks [where opts = ex_opts and pre = "[]" and c = 0,
        unfolded Let_def]
      operations_and_callbacks [where opts = ex_opts and pre = "[Start, Pause]" and c = 0,
        unfolded Let_def]
      operations_and_callbacks [where opts = ex_opts and pre = "[Start, Elapse 100]" and c = 0,
        unfolded Let_def]
    by metis
qed

text \<open>
  As the claim is written, no callback is invoked inside a call of \<open>start\<close> or
  \<open>resume\<close>. With five items in chunks of two, \<open>start\<close> has called
  \<^verbatim>\<open>onProgress(2, 5)\<close> when it returns and \<open>resume\<close> has called
  \<^verbatim>\<open>onProgress(4, 5)\<close>; with three items and the default chunk size, \<open>start\<close> has
  called \<^verbatim>\<open>onComplete\<close> when it returns.
\<close>

theorem no_synchronous_callback_counterexample:
  "progress_args (run_events init (start ex_opts init)) = [(2, 5)] \<and>
   progress_args (run_events (exec ex_opts [Start, Pause] init)
                    (resume ex_opts (exec ex_opts [Start, Pause] init))) = [(4, 5)] \<and>
   completions (run_events init (start ex_small init)) = [CompleteCall [Some 1, Some 3, Some 5]]"
  by code_simp

section \<open>stop\<close>

text \<open>
  Claim C5. \<open>stop\<close> is a no-op when the scheduler is not active. When it is called
  during a run (running or paused), the cursor is 0, the results are empty, no timer is
  left in the host's queue and the handle is cleared, both flags are off, and the call
  itself invokes nothing. Whatever follows short of a new \<open>start\<close> (time passing, timer
  turns, pause, resume, stop) adds nothing to the trace: no further chunk executes, and
  the run, from its start on, never has a call of \<^verbatim>\<open>onComplete\<close>.
\<close>

theorem stop_cancels_run:
  "(\<not> isRunning s \<longrightarrow> stop s = s) \<and>
   (let s0 = exec opts pre init; s1 = exec opts acts1 (start opts s0);
        s2 = stop s1; s3 = exec opts acts2 s2
    in \<not> isRunning s0 \<and> Start \<notin> set acts1 \<and> isRunning s1 \<and> Start \<notin> set acts2 \<longrightarrow>
         currentIndex s2 = 0 \<and> result s2 = [] \<and> timers s2 = [] \<and> timeoutId s2 = None \<and>
         \<not> isRunning s2 \<and> \<not> isPaused s2 \<and> trace s2 = trace s1 \<and>
         currentIndex s3 = 0 \<and> result s3 = [] \<and> timers s3 = [] \<and> \<not> isRunning s3 \<and>
         trace s3 = trace s1 \<and> completions (run_events s0 s3) = [])"
proof -
  let ?i = "exec opts pre init"
  let ?a = "exec opts acts1 (start opts ?i)"
  let ?b = "stop ?a"
  let ?c = "exec opts acts2 ?b"
  have noop: "\<not> isRunning s \<longrightarrow> stop s = s"
    by (simp add: stop_def)
  have main: "currentIndex ?b = 0 \<and> result ?b = [] \<and> timers ?b = [] \<and> timeoutId ?b = None \<and>
         \<not> isRunning ?b \<and> \<not> isPaused ?b \<and> trace ?b = trace ?a \<and>
         currentIndex ?c = 0 \<and> result ?c = [] \<and> timers ?c = [] \<and> \<not> isRunning ?c \<and>
         trace ?c = trace ?a \<and> completions (run_events ?i ?c) = []"
    if h: "\<not> isRunning ?i" "Start \<notin> set acts1" "isRunning ?a" "Start \<notin> set acts2"
  proof -
    have inv_a: "sched_inv opts ?a"
      by (intro sched_inv_exec sched_inv_start reach_inv)
    note f = stop_fields [OF inv_a h(3)]
    have clk: "?c = ?b\<lparr> now := now ?c \<rparr>"
      using f(3,5) h(4) by (intro exec_only_clock) simp_all
    have c_fields: "currentIndex ?c = 0" "result ?c = []" "timers ?c = []" "\<not> isRunning ?c"
      "trace ?c = trace ?a"
      using f by (subst clk, simp)+
    have "run_ok opts ?a (run_events ?i ?a)"
      by (rule run_events_ok [OF reach_inv h(1) h(2)])
    then have "completions (run_events ?i ?a) = []"
      using h(3) by (simp add: run_ok_def)
    then have "completions (run_events ?i ?c) = []"
      using c_fields(5) by (simp add: run_events_def)
    then show ?thesis
      using f c_fields by simp
  qed
  show ?thesis
    unfolding Let_def using noop main by blast
qed

theorem stop_cancels_run_witness:
  "\<not> isRunning (init :: (nat, nat) TimeSlice) \<and> stop (init :: (nat, nat) TimeSlice) = init \<and>
   \<not> isRunning (exec ex_opts [] init) \<and> Start \<notin> set [Elapse 100, Fire, Pause] \<and>
   isRunning (exec ex_opts [Elapse 100, Fire, Pause] (start ex_opts (exec ex_opts [] init))) \<and>
   Start \<notin> set [Elapse 500, Fire, Resume, Fire] \<and>
   currentIndex (stop (exec ex_opts [Elapse 100, Fire, Pause]
                         (start ex_opts (exec ex_opts [] init)))) = 0 \<and>
   completions (run_events (exec ex_opts [] init)
      (exec ex_opts [Elapse 500, Fire, Resume, Fire]
         (stop (exec ex_opts [Elapse 100, Fire, Pause]
                  (start ex_opts (exec ex_opts [] init)))))) = []"
proof -
  have h1: "\<not> isRunning (init :: (nat, nat) TimeSlice)" by (simp add: init_def)
  have h2: "\<not> isRunning (exec ex_opts [] init)" by code_simp
  have h3: "Start \<notin> set [Elapse 100, Fire, Pause]" by simp
  have h4: "isRunning (exec ex_opts [Elapse 100, Fire, Pause]
              (start ex_opts (exec ex_opts [] init)))" by code_simp
  have h5: "Start \<notin> set [Elapse 500, Fire, Resume, Fire]" by simp
  show ?thesis
    using h1 h2 h3 h4 h5
      stop_cancels_run [where s = "init :: (nat, nat) TimeSlice" and opts = ex_opts
        and pre = "[]" and ?acts1.0 = "[Elapse 100, Fire, Pause]"
        and ?acts2.0 = "[Elapse 500, Fire, Resume, Fire]", unfolded Let_def]
    by blast
qed

section \<open>pause\<close>

text \<open>
  Claim C6. \<open>pause\<close> is a no-op unless the scheduler is running and not paused. When
  it is, a continuation was pending, and \<open>pause\<close> removes it from the host's queue and
  clears the handle, leaving cursor, results and trace as they were. After that, however
  much time passes and however many timer turns the host takes, the cursor does not
  move and neither the handler nor a callback is invoked.
\<close>

theorem pause_cancels_continuation:
  "(\<not> (isRunning s \<and> \<not> isPaused s) \<longrightarrow> pause s = s) \<and>
   (let s1 = exec opts pre init; s2 = pause s1; s3 = exec opts acts s2
    in isRunning s1 \<and> \<not> isPaused s1 \<and> (\<forall>a \<in> set acts. is_host a) \<longrightarrow>
         timers s1 \<noteq> [] \<and> timers s2 = [] \<and> timeoutId s2 = None \<and>
         isRunning s2 \<and> isPaused s2 \<and>
         currentIndex s2 = currentIndex s1 \<and> trace s2 = trace s1 \<and> result s2 = result s1 \<and>
         isRunning s3 \<and> isPaused s3 \<and> timers s3 = [] \<and>
         currentIndex s3 = currentIndex s1 \<and> trace s3 = trace s1 \<and> result s3 = result s1)"
proof -
  let ?a = "exec opts pre init"
  let ?b = "pause ?a"
  let ?c = "exec opts acts ?b"
  have noop: "\<not> (isRunning s \<and> \<not> isPaused s) \<longrightarrow> pause s = s"
    by (simp add: pause_def)
  have main: "timers ?a \<noteq> [] \<and> timers ?b = [] \<and> timeoutId ?b = None \<and>
         isRunning ?b \<and> isPaused ?b \<and>
         currentIndex ?b = currentIndex ?a \<and> trace ?b = trace ?a \<and> result ?b = result ?a \<and>
         isRunning ?c \<and> isPaused ?c \<and> timers ?c = [] \<and>
         currentIndex ?c = currentIndex ?a \<and> trace ?c = trace ?a \<and> result ?c = result ?a"
    if h: "isRunning ?a" "\<not> isPaused ?a" "\<forall>a \<in> set acts. is_host a"
  proof -
    note f = pause_fields [OF reach_inv h(1) h(2)]
    have clk: "?c = ?b\<lparr> now := now ?c \<rparr>"
      using f(2) h(3) by (intro exec_only_clock) simp_all
    have "isRunning ?c" "isPaused ?c" "timers ?c = []" "currentIndex ?c = currentIndex ?a"
      "trace ?c = trace ?a" "result ?c = result ?a"
      using f by (subst clk, simp)+
    then show ?thesis using f by simp
  qed
  show ?thesis
    unfolding Let_def using noop main by blast
qed

theorem pause_cancels_continuation_witness:
  "\<not> (isRunning (init :: (nat, nat) TimeSlice) \<and> \<not> isPaused (init :: (nat, nat) TimeSlice)) \<and>
   pause (init :: (nat, nat) TimeSlice) = init \<and>
   isRunning (exec ex_opts [Start] init) \<and> \<not> isPaused (exec ex_opts [Start] init) \<and>
   list_all is_host [Elapse 200, Fire, Fire] \<and>
   timers (exec ex_opts [Start] init) \<noteq> [] \<and>
   timers (pause (exec ex_opts [Start] init)) = [] \<and>
   currentIndex (exec ex_opts [Elapse 200, Fire, Fire] (pause (exec ex_opts [Start] init)))
     = currentIndex (exec ex_opts [Start] init) \<and>
   trace (exec ex_opts [Elapse 200, Fire, Fire] (pause (exec ex_opts [Start] init)))
     = trace (exec ex_opts [Start] init)"
proof -
  have h1: "\<not> (isRunning (init :: (nat, nat) TimeSlice) \<and> \<not> isPaused (init :: (nat, nat) TimeSlice))"
    by (simp add: init_def)
  have h2: "isRunning (exec ex_opts [Start] init)" by code_simp
  have h3: "\<not> isPaused (exec ex_opts [Start] init)" by code_simp
  have h4: "\<forall>a \<in> set [Elapse 200, Fire, Fire]. is_host a" by simp
  have h4': "list_all is_host [Elapse 200, Fire, Fire]" by simp
  show ?thesis
    using h1 h2 h3 h4 h4'
      pause_cancels_continuation [where s = "init :: (nat, nat) TimeSlice" and opts = ex_opts
        and pre = "[Start]" and acts = "[Elapse 200, Fire, Fire]", unfolded Let_def]
    by blast
qed

section \<open>resume\<close>

text \<open>
  Claim C7. \<open>resume\<close> is a no-op unless the scheduler is paused. When it is paused
  (within a run), \<open>resume\<close> clears the pause and processes the next chunk inside the
  call, at the same clock time: the cursor moves from the saved position \<open>c\<close> to
  \<open>min (c + count) n\<close> (strictly forward for a chunk size of at least one), the handler
  is called on exactly the indices from \<open>c\<close> up to the new cursor, and over the whole
  run the handler has been called on the indices below the new cursor once each, in
  order: no processed element is handled again.
\<close>

theorem resume_continues_immediately:
  "(\<not> (isRunning s \<and> isPaused s) \<longrightarrow> resume opts s = s) \<and>
   (let s0 = exec opts pre init; s1 = exec opts acts (start opts s0); s2 = resume opts s1
    in \<not> isRunning s0 \<and> Start \<notin> set acts \<and> isRunning s1 \<and> isPaused s1 \<longrightarrow>
         \<not> isPaused s2 \<and> now s2 = now s1 \<and>
         currentIndex s2 = min (currentIndex s1 + count_of opts) (length (data opts)) \<and>
         (0 < count_of opts \<longrightarrow> currentIndex s1 < currentIndex s2) \<and>
         (isRunning s2 \<longleftrightarrow> currentIndex s2 < length (data opts)) \<and>
         run_events s1 s2 = chunk_events opts (currentIndex s1) \<and>
         handler_part (run_events s1 s2)
           = handler_calls opts (currentIndex s1) (currentIndex s2) \<and>
         handler_part (run_events s0 s2) = handler_calls opts 0 (currentIndex s2))"
proof -
  let ?i = "exec opts pre init"
  let ?a = "exec opts acts (start opts ?i)"
  let ?b = "resume opts ?a"
  have noop: "\<not> (isRunning s \<and> isPaused s) \<longrightarrow> resume opts s = s"
    by (auto simp: resume_def)
  have main: "\<not> isPaused ?b \<and> now ?b = now ?a \<and>
         currentIndex ?b = min (currentIndex ?a + count_of opts) (length (data opts)) \<and>
         (0 < count_of opts \<longrightarrow> currentIndex ?a < currentIndex ?b) \<and>
         (isRunning ?b \<longleftrightarrow> currentIndex ?b < length (data opts)) \<and>
         run_events ?a ?b = chunk_events opts (currentIndex ?a) \<and>
         handler_part (run_events ?a ?b)
           = handler_calls opts (currentIndex ?a) (currentIndex ?b) \<and>
         handler_part (run_events ?i ?b) = handler_calls opts 0 (currentIndex ?b)"
    if h: "\<not> isRunning ?i" "Start \<notin> set acts" "isRunning ?a" "isPaused ?a"
  proof -
    have inv_a: "sched_inv opts ?a"
      by (intro sched_inv_exec sched_inv_start reach_inv)
    note f = resume_fields [OF inv_a h(3) h(4)]
    have c_lt: "currentIndex ?a < length (data opts)"
      using inv_a h(3) by (simp add: sched_inv_def)
    have ev: "run_events ?a ?b = chunk_events opts (currentIndex ?a)"
      using f(5) by (rule run_events_app)
    have ok: "run_ok opts ?a (run_events ?i ?a)"
      by (rule run_events_ok [OF reach_inv h(1) h(2)])
    have len: "length (handler_part (run_events ?i ?a)) = currentIndex ?a"
      using ok h(3) by (simp add: run_ok_def)
    have "handler_part (run_events ?i ?a)
          = handler_calls opts 0 (length (handler_part (run_events ?i ?a)))"
      using ok by (simp add: run_ok_def)
    then have hp: "handler_part (run_events ?i ?a) = handler_calls opts 0 (currentIndex ?a)"
      unfolding len .
    have "trace ?b = trace ?i @ (run_events ?i ?a @ chunk_events opts (currentIndex ?a))"
      using f(5) run_trace_prefix [OF reach_inv h(1) h(2)] by simp
    then have "run_events ?i ?b = run_events ?i ?a @ chunk_events opts (currentIndex ?a)"
      by (rule run_events_app)
    then have whole: "handler_part (run_events ?i ?b) = handler_calls opts 0 (currentIndex ?b)"
      using c_lt
      by (simp add: hp handler_part_chunk f(3) handler_calls_app chunk_end_ge)
    show ?thesis
      using f ev whole c_lt
      by (simp add: handler_part_chunk chunk_end_gt) (simp add: chunk_end_def)
  qed
  show ?thesis
    unfolding Let_def using noop main by blast
qed

theorem resume_continues_immediately_witness:
  "\<not> (isRunning (init :: (nat, nat) TimeSlice) \<and> isPaused (init :: (nat, nat) TimeSlice)) \<and>
   resume ex_opts init = init \<and>
   \<not> isRunning (exec ex_opts [] init) \<and> Start \<notin> set [Pause, Elapse 200, Fire] \<and>
   isRunning (exec ex_opts [Pause, Elapse 200, Fire] (start ex_opts (exec ex_opts [] init))) \<and>
   isPaused (exec ex_opts [Pause, Elapse 200, Fire] (start ex_opts (exec ex_opts [] init))) \<and>
   0 < count_of ex_opts \<and>
   now (resume ex_opts (exec ex_opts [Pause, Elapse 200, Fire]
                          (start ex_opts (exec ex_opts [] init))))
     = now (exec ex_opts [Pause, Elapse 200, Fire] (start ex_opts (exec ex_opts [] init))) \<and>
   currentIndex (exec ex_opts [Pause, Elapse 200, Fire] (start ex_opts (exec ex_opts [] init)))
     < currentIndex (resume ex_opts (exec ex_opts [Pause, Elapse 200, Fire]
                                       (start ex_opts (exec ex_opts [] init))))"
proof -
  have h1: "\<not> (isRunning (init :: (nat, nat) TimeSlice) \<and> isPaused (init :: (nat, nat) TimeSlice))"
    by (simp add: init_def)
  have h2: "\<not> isRunning (exec ex_opts [] init)" by code_simp
  have h3: "Start \<notin> set [Pause, Elapse 200, Fire]" by simp
  have h4: "isRunning (exec ex_opts [Pause, Elapse 200, Fire]
              (start ex_opts (exec ex_opts [] init)))" by code_simp
  have h5: "isPaused (exec ex_opts [Pause, Elapse 200, Fire]
              (start ex_opts (exec ex_opts [] init)))" by code_simp
  have h6: "0 < count_of ex_opts" by (simp add: count_of_def ex_opts_def)
  show ?thesis
    using h1 h2 h3 h4 h5 h6
      resume_continues_immediately [where s = "init :: (nat, nat) TimeSlice" and opts = ex_opts
        and pre = "[]" and acts = "[Pause, Elapse 200, Fire]", unfolded Let_def]
    by blast
qed

section \<open>start while active\<close>

text \<open>
  Claim C8. Calling \<open>start\<close> while the scheduler is running or paused is a complete
  no-op: the whole state is returned unchanged (cursor, results, pending timer, both
  flags, and the trace of handler and callback calls), and there is no error branch.
  A paused scheduler has \<open>isRunning\<close> set, so the guard of \<open>start\<close> covers it.
\<close>

theorem start_noop_when_active:
  "(isRunning s \<longrightarrow> start opts s = s) \<and>
   (isRunning (exec opts acts init) \<or> isPaused (exec opts acts init)
      \<longrightarrow> start opts (exec opts acts init) = exec opts acts init)"
proof -
  have "flags_ok (exec opts acts (init :: ('a, 'b) TimeSlice))"
    by (rule flags_ok_exec) (simp add: flags_ok_def init_def)
  then show ?thesis
    by (auto simp: start_def flags_ok_def)
qed

theorem start_noop_when_active_witness:
  "isRunning (exec ex_opts [Start] init) \<and>
   start ex_opts (exec ex_opts [Start] init) = exec ex_opts [Start] init \<and>
   isPaused (exec ex_opts [Start, Pause] init) \<and>
   start ex_opts (exec ex_opts [Start, Pause] init) = exec ex_opts [Start, Pause] init"
proof -
  have a: "isRunning (exec ex_opts [Start] init)" by code_simp
  have b: "isPaused (exec ex_opts [Start, Pause] init)" by code_simp
  show ?thesis
    using a b start_noop_when_active [of "exec ex_opts [Start] init" ex_opts "[Start, Pause]"]
    by simp
qed

section \<open>A collection that fits in one chunk\<close>

text \<open>
  Claim C9. When the length of \<open>data\<close> is at most \<open>count\<close>, \<open>start\<close> from an inactive
  state processes the whole collection in the first chunk step and completes inside the
  call: the events are the handler calls on all indices, one progress call and the
  completion call with all results. No timer is queued, by this call or at any later
  time before a new \<open>start\<close>. For empty \<open>data\<close> the handler is not called and
  \<^verbatim>\<open>onComplete\<close> is called once with the empty array.
\<close>

theorem single_chunk_run:
  assumes "length (data opts) \<le> count_of opts" and "\<not> isRunning (exec opts pre init)"
  shows "let s = exec opts pre init; s' = start opts s; n = length (data opts)
         in \<not> isRunning s' \<and> \<not> isPaused s' \<and> currentIndex s' = n \<and>
            result s' = results_upto opts n \<and>
            run_events s s'
              = handler_calls opts 0 n
                @ (if onProgress opts then [ProgressCall n n] else [])
                @ (if onComplete opts then [CompleteCall (results_upto opts n)] else []) \<and>
            timers s' = [] \<and> nextTimerId s' = nextTimerId s \<and>
            (Start \<notin> set acts \<longrightarrow>
               trace (exec opts acts s') = trace s' \<and> timers (exec opts acts s') = [] \<and>
               nextTimerId (exec opts acts s') = nextTimerId s) \<and>
            (data opts = [] \<longrightarrow>
               handler_part (run_events s s') = [] \<and>
               completions (run_events s s')
                 = (if onComplete opts then [CompleteCall []] else []))"
proof -
  let ?a = "exec opts pre init"
  let ?b = "start opts ?a"
  let ?n = "length (data opts)"
  have e: "chunk_end opts 0 = ?n"
    using assms(1) by (simp add: chunk_end_def)
  have t0: "timers ?a = []"
    using reach_inv [of opts pre] assms(2) by (simp add: idle_no_timers)
  have eq: "?b = ?a\<lparr> isRunning := False, isPaused := False,
              result := results_upto opts ?n,
              trace := trace ?a @ chunk_events opts 0,
              currentIndex := ?n \<rparr>"
    using start_inactive [OF assms(2), of opts] by (simp add: e)
  have f: "\<not> isRunning ?b" "\<not> isPaused ?b" "currentIndex ?b = ?n"
    "result ?b = results_upto opts ?n" "timers ?b = []" "nextTimerId ?b = nextTimerId ?a"
    "trace ?b = trace ?a @ chunk_events opts 0"
    using t0 by (subst eq, simp)+
  have ev: "run_events ?a ?b = chunk_events opts 0"
    using f(7) by (rule run_events_app)
  have ce: "chunk_events opts 0 = handler_calls opts 0 ?n
                @ (if onProgress opts then [ProgressCall ?n ?n] else [])
                @ (if onComplete opts then [CompleteCall (results_upto opts ?n)] else [])"
    by (simp add: chunk_events_def e)
  have later: "trace (exec opts acts ?b) = trace ?b \<and> timers (exec opts acts ?b) = [] \<and>
               nextTimerId (exec opts acts ?b) = nextTimerId ?a"
    if "Start \<notin> set acts"
  proof -
    have clk: "exec opts acts ?b = ?b\<lparr> now := now (exec opts acts ?b) \<rparr>"
      using f(1,5) that by (intro exec_only_clock) simp_all
    show ?thesis
      using f(5,6) by (subst (1 2 3) clk) simp
  qed
  have empty: "handler_part (run_events ?a ?b) = [] \<and>
               completions (run_events ?a ?b)
                 = (if onComplete opts then [CompleteCall []] else [])"
    if "data opts = []"
    using that by (simp add: ev ce handler_calls_def results_upto_def)
  have evs: "run_events ?a ?b = handler_calls opts 0 ?n
                @ (if onProgress opts then [ProgressCall ?n ?n] else [])
                @ (if onComplete opts then [CompleteCall (results_upto opts ?n)] else [])"
    using ev ce by simp
  show ?thesis
    unfolding Let_def using f(1-6) evs later empty by blast
qed

theorem single_chunk_run_witness:
  "length (data ex_small) \<le> count_of ex_small \<and> \<not> isRunning (exec ex_small [Start] init) \<and>
   Start \<notin> set [Elapse 16, Fire] \<and>
   \<not> isRunning (start ex_small (exec ex_small [Start] init)) \<and>
   timers (start ex_small (exec ex_small [Start] init)) = [] \<and>
   nextTimerId (exec ex_small [Elapse 16, Fire] (start ex_small (exec ex_small [Start] init)))
     = nextTimerId (exec ex_small [Start] init) \<and>
   length (data ex_empty) \<le> count_of ex_empty \<and> \<not> isRunning (exec ex_empty [] init) \<and>
   data ex_empty = [] \<and>
   handler_part (run_events (exec ex_empty [] init) (start ex_empty (exec ex_empty [] init))) = [] \<and>
   completions (run_events (exec ex_empty [] init) (start ex_empty (exec ex_empty [] init)))
     = (if onComplete ex_empty then [CompleteCall []] else [])"
proof -
  have a1: "length (data ex_small) \<le> count_of ex_small"
    by (simp add: ex_small_def count_of_def)
  have a2: "\<not> isRunning (exec ex_small [Start] init)" by code_simp
  have a3: "Start \<notin> set [Elapse 16, Fire]" by simp
  have b1: "length (data ex_empty) \<le> count_of ex_empty"
    by (simp add: ex_empty_def)
  have b2: "\<not> isRunning (exec ex_empty [] init)" by code_simp
  have b3: "data ex_empty = []" by (simp add: ex_empty_def)
  show ?thesis
    using a1 a2 a3 b1 b2 b3
      single_chunk_run [OF a1 a2, where acts = "[Elapse 16, Fire]", unfolded Let_def]
      single_chunk_run [OF b1 b2, where acts = "[]", unfolded Let_def]
    by blast
qed

section \<open>The flag invariant\<close>

text \<open>
  Claim C10. The two flags satisfy: \<open>isPaused\<close> is true only when \<open>isRunning\<close> is true.
  Initially both are false; \<open>start\<close>, \<open>pause\<close>, \<open>resume\<close>, \<open>stop\<close> and the chunk step
  \<open>processChunk\<close> each preserve the implication, from any state; hence it holds after
  every sequence of operations and host turns, and a scheduler that is not running
  (completed or idle) is never paused.
\<close>

theorem flags_invariant:
  "\<not> isRunning (init :: ('t, 'r) TimeSlice) \<and> \<not> isPaused (init :: ('t, 'r) TimeSlice) \<and>
   (flags_ok s \<longrightarrow>
      flags_ok (start opts s) \<and> flags_ok (pause s) \<and> flags_ok (resume opts s) \<and>
      flags_ok (stop s) \<and> flags_ok (processChunk opts s)) \<and>
   flags_ok (exec opts acts (init :: ('t, 'r) TimeSlice)) \<and>
   (\<not> isRunning (exec opts acts (init :: ('t, 'r) TimeSlice))
      \<longrightarrow> \<not> isPaused (exec opts acts (init :: ('t, 'r) TimeSlice)))"
proof -
  have i: "flags_ok (init :: ('t, 'r) TimeSlice)"
    by (simp add: flags_ok_def init_def)
  have e: "flags_ok (exec opts acts (init :: ('t, 'r) TimeSlice))"
    using i by (rule flags_ok_exec)
  show ?thesis
    using e
    by (auto simp: init_def flags_ok_start flags_ok_pause flags_ok_resume flags_ok_stop
        flags_ok_processChunk) (simp add: flags_ok_def)
qed

theorem flags_invariant_witness:
  "flags_ok (exec ex_opts [Start, Pause] init) \<and>
   isPaused (exec ex_opts [Start, Pause] init) \<and>
   isRunning (exec ex_opts [Start, Pause] init) \<and>
   flags_ok (start ex_opts (exec ex_opts [Start, Pause] init)) \<and> 
   flags_ok (pause (exec ex_opts [Start, Pause] init)) \<and>
   flags_ok (resume ex_opts (exec ex_opts [Start, Pause] init)) \<and>
   flags_ok (stop (exec ex_opts [Start, Pause] init)) \<and> 
   flags_ok (processChunk ex_opts (exec ex_opts [Start, Pause] init)) \<and>
   \<not> isRunning (exec ex_opts [Start, Stop] init) \<and>
   \<not> isPaused (exec ex_opts [Start, Stop] init)"
proof -
  have a: "flags_ok (exec ex_opts [Start, Pause] init)" by code_simp
  have b: "isPaused (exec ex_opts [Start, Pause] init)" by code_simp
  have c: "isRunning (exec ex_opts [Start, Pause] init)" by code_simp
  have d: "\<not> isRunning (exec ex_opts [Start, Stop] init)" by code_simp
  show ?thesis
    using a b c d flags_invariant [of "exec ex_opts [Start, Pause] init" ex_opts "[Start, Stop]"]
    by simp
qed

end
